theory Spec2Isabelle
  imports Complex_Main "HOL-Library.Word"
begin

section \<open>Machine types\<close>

text \<open>
  The filter of \<^verbatim>\<open>AnalogSelector.cpp\<close> is embedded with the types of the 8-bit AVR boards
  (Uno, Nano, Mega) whose 10-bit \<^verbatim>\<open>analogRead()\<close> gives the default range 0..1023:
  \<^verbatim>\<open>int\<close> and \<^verbatim>\<open>unsigned int\<close> are 16 bits wide, \<^verbatim>\<open>unsigned long\<close> is 32 bits wide and
  \<^verbatim>\<open>float\<close> is IEEE binary32. A 16-bit word is read with \<open>sint\<close> where the source has an
  \<^verbatim>\<open>int\<close> and with \<open>unat\<close> where it has an \<^verbatim>\<open>unsigned int\<close>; arithmetic wraps around, and
  the conversions between the two keep the bits.
\<close>

type_synonym int16 = "16 word"
type_synonym uint16 = "16 word"
type_synonym uint32 = "32 word"

text \<open>\<^verbatim>\<open>abs(x)\<close>, which is \<^verbatim>\<open>((x)>0?(x):-(x))\<close> in \<^verbatim>\<open>Arduino.h\<close>; the negation wraps.\<close>

definition c_abs :: "int16 \<Rightarrow> int16" where
  "c_abs x = (if 0 < sint x then x else - x)"

section \<open>binary32 values\<close>

text \<open>
  A \<^verbatim>\<open>float\<close> is a finite value, an infinity or a NaN. A finite value is kept as the
  rational number it denotes (every binary32 number is one); the sign of a zero is not
  kept, since the filter only compares, multiplies by a non-negative number and
  truncates. Arithmetic rounds to nearest, ties to even, to 24 significant bits with the
  exponent range of binary32.
\<close>

datatype binary32 = Finite rat | PlusInf | MinusInf | NaN

text \<open>The comparison \<^verbatim>\<open><\<close>: false as soon as one side is a NaN.\<close>

fun float_less :: "binary32 \<Rightarrow> binary32 \<Rightarrow> bool" where
  "float_less NaN _ = False"
| "float_less _ NaN = False"
| "float_less (Finite a) (Finite b) = (a < b)"
| "float_less (Finite a) PlusInf = True"
| "float_less (Finite a) MinusInf = False"
| "float_less PlusInf _ = False"
| "float_less MinusInf (Finite b) = True"
| "float_less MinusInf PlusInf = True"
| "float_less MinusInf MinusInf = False"

definition round_even :: "rat \<Rightarrow> int" where
  "round_even x =
     (let f = \<lfloor>x\<rfloor>; d = x - of_int f
      in if d < 1 / 2 then f else if 1 / 2 < d then f + 1
         else if even f then f else f + 1)"

text \<open>
  The number of binary digits kept after the point for a magnitude below \<open>2 ^ 24\<close>: the
  largest \<open>j\<close>, at most 149 (the subnormal spacing \<open>2 ^ -149\<close>), with \<open>a * 2 ^ j < 2 ^ 24\<close>.
\<close>

fun scale_up :: "nat \<Rightarrow> nat \<Rightarrow> rat \<Rightarrow> nat" where
  "scale_up 0 j a = j"
| "scale_up (Suc fuel) j a =
     (if a * 2 ^ Suc j < 2 ^ 24 then scale_up fuel (Suc j) a else j)"

text \<open>
  The number of low binary digits dropped for a magnitude from \<open>2 ^ 24\<close> on: the least
  \<open>k\<close> with \<open>a / 2 ^ k < 2 ^ 24\<close>, looked for up to the largest exponent of the format.
\<close>

fun scale_down :: "nat \<Rightarrow> nat \<Rightarrow> rat \<Rightarrow> nat" where
  "scale_down 0 k a = k"
| "scale_down (Suc fuel) k a =
     (if a / 2 ^ k < 2 ^ 24 then k else scale_down fuel (Suc k) a)"

definition float_round :: "rat \<Rightarrow> binary32" where
  "float_round x =
     (let a = \<bar>x\<bar>
      in if a < 2 ^ 24
         then (let j = scale_up 149 0 a
               in Finite (sgn x * of_int (round_even (a * 2 ^ j)) / 2 ^ j))
         else (let k = scale_down 105 0 a;
                   v = of_int (round_even (a / 2 ^ k)) * 2 ^ k
               in if 2 ^ 128 \<le> v then (if x < 0 then MinusInf else PlusInf)
                  else Finite (sgn x * v)))"

fun float_mul :: "binary32 \<Rightarrow> binary32 \<Rightarrow> binary32" where
  "float_mul NaN _ = NaN"
| "float_mul _ NaN = NaN"
| "float_mul (Finite a) (Finite b) = float_round (a * b)"
| "float_mul (Finite a) PlusInf =
     (if a = 0 then NaN else if 0 < a then PlusInf else MinusInf)"
| "float_mul (Finite a) MinusInf =
     (if a = 0 then NaN else if 0 < a then MinusInf else PlusInf)"
| "float_mul PlusInf (Finite b) =
     (if b = 0 then NaN else if 0 < b then PlusInf else MinusInf)"
| "float_mul MinusInf (Finite b) =
     (if b = 0 then NaN else if 0 < b then MinusInf else PlusInf)"
| "float_mul PlusInf PlusInf = PlusInf"
| "float_mul PlusInf MinusInf = MinusInf"
| "float_mul MinusInf PlusInf = MinusInf"
| "float_mul MinusInf MinusInf = PlusInf"

text \<open>
  \<^verbatim>\<open>(float)u\<close> for a 16-bit unsigned \<open>u\<close>: exact, since 16 bits fit the 24-bit
  significand.
\<close>

definition float_of_uint :: "uint16 \<Rightarrow> binary32" where
  "float_of_uint u = Finite (of_nat (unat u))"

text \<open>
  The conversion of a \<^verbatim>\<open>float\<close> to \<^verbatim>\<open>unsigned int\<close> drops the fraction. C++ leaves the
  result undefined when the truncated value is not a value of the target type, which
  is the case for each NaN and infinity: that is \<open>None\<close> here.
\<close>

definition float_to_uint :: "binary32 \<Rightarrow> uint16 option" where
  "float_to_uint x =
     (case x of
        Finite q \<Rightarrow>
          (let t = (if 0 \<le> q then \<lfloor>q\<rfloor> else - \<lfloor>- q\<rfloor>)
           in if 0 \<le> t \<and> t < 65536 then Some (word_of_int t) else None)
      | PlusInf \<Rightarrow> None
      | MinusInf \<Rightarrow> None
      | NaN \<Rightarrow> None)"

section \<open>The filter\<close>

text \<open>The data members of \<^verbatim>\<open>class AnalogSelectorFilter\<close>, in the order of the header.\<close>

record AnalogSelectorFilter =
  configChanged :: bool
  rangeMin :: int16
  rangeMax :: int16
  numPositions :: uint16
  deadzoneSize :: binary32
  selectorWidth :: uint16
  deadzoneWidth :: uint16
  edgeLow :: int16
  currentSelection :: uint16
  edgeHigh :: int16

datatype Direction = Upper | Lower

definition setRange :: "AnalogSelectorFilter \<Rightarrow> int16 \<Rightarrow> int16 \<Rightarrow> AnalogSelectorFilter" where
  "setRange s rMin rMax =
     (if sint rMax < sint rMin
      then s\<lparr>rangeMin := rMax, rangeMax := rMin, configChanged := True\<rparr>
      else s\<lparr>rangeMin := rMin, rangeMax := rMax, configChanged := True\<rparr>)"

definition setNumPositions :: "AnalogSelectorFilter \<Rightarrow> uint16 \<Rightarrow> AnalogSelectorFilter" where
  "setNumPositions s numPos =
     s\<lparr>numPositions := (if numPos = 0 then 1 else numPos), configChanged := True\<rparr>"

definition setDeadzone :: "AnalogSelectorFilter \<Rightarrow> binary32 \<Rightarrow> AnalogSelectorFilter" where
  "setDeadzone s dz =
     s\<lparr>deadzoneSize :=
          (if float_less dz (Finite 0) then Finite 0
           else if float_less (Finite 1) dz then Finite 1 else dz),
       configChanged := True\<rparr>"

text \<open>
  The sum is formed in \<^verbatim>\<open>unsigned int\<close> (the widths and the index are unsigned, so
  \<open>rangeMin\<close> is converted) and stored in the \<^verbatim>\<open>int edge\<close>; the two clamps are
  consecutive \<^verbatim>\<open>if\<close>s on the signed value. The upper edge tests the index against
  \<open>numPositions\<close> itself.
\<close>

definition calculateEdge :: "AnalogSelectorFilter \<Rightarrow> uint16 \<Rightarrow> Direction \<Rightarrow> int16" where
  "calculateEdge s i dir =
     (let edge = (case dir of
                    Upper \<Rightarrow> rangeMin s + selectorWidth s * (i + 1)
                             + deadzoneWidth s * (if i \<noteq> numPositions s then i + 1 else i)
                  | Lower \<Rightarrow> rangeMin s + selectorWidth s * i
                             + deadzoneWidth s * (if i \<noteq> 0 then i - 1 else i));
          edge1 = (if sint edge < sint (rangeMin s) then rangeMin s else edge)
      in if sint (rangeMax s) < sint edge1 then rangeMax s else edge1)"

text \<open>
  \<open>None\<close> stands for undefined behaviour: the conversion of the product to
  \<^verbatim>\<open>unsigned int\<close> when it has no value there, and the division by \<open>numPositions\<close> when
  that is zero. \<open>SelectorRange\<close> is an \<^verbatim>\<open>unsigned long\<close> holding a difference computed in
  \<^verbatim>\<open>unsigned int\<close>; the quotient goes back into an \<^verbatim>\<open>unsigned int\<close>.
\<close>

definition recalculateWidths :: "AnalogSelectorFilter \<Rightarrow> AnalogSelectorFilter option" where
  "recalculateWidths s =
     (let TotalRange = c_abs (rangeMax s - rangeMin s);
          DeadzoneRange = TotalRange - numPositions s;
          NumDeadzones = numPositions s - 1;
          MaxDeadzoneWidth = (if NumDeadzones \<noteq> 0 then DeadzoneRange div NumDeadzones else 0)
      in case float_to_uint (float_mul (float_of_uint MaxDeadzoneWidth) (deadzoneSize s)) of
           None \<Rightarrow> None
         | Some dw \<Rightarrow>
             if numPositions s = 0 then None
             else
               (let SelectorRange = (ucast (TotalRange - dw * NumDeadzones) :: uint32)
                in Some (s\<lparr>deadzoneWidth := dw,
                           selectorWidth := ucast (SelectorRange div ucast (numPositions s)),
                           configChanged := False\<rparr>)))"

text \<open>
  The two scans of \<open>calculateSelection\<close>. The loop variable is an \<^verbatim>\<open>int\<close>; it stays
  between \<open>-32768\<close> and \<open>32767\<close> (it is below \<^verbatim>\<open>(int) numPositions\<close> when incremented and at
  least 0 when decremented), so it is an unbounded integer here and is converted to the
  unsigned index at each call of \<open>calculateEdge\<close>.
\<close>

function scanUp :: "AnalogSelectorFilter \<Rightarrow> int16 \<Rightarrow> int \<Rightarrow> AnalogSelectorFilter" where
  "scanUp s pos i =
     (if i < sint (numPositions s)
      then (let UpperEdge = calculateEdge s (word_of_int i) Upper
            in if sint UpperEdge < sint pos then scanUp s pos (i + 1)
               else s\<lparr>currentSelection := word_of_int i,
                      edgeLow := calculateEdge s (word_of_int i) Lower,
                      edgeHigh := UpperEdge\<rparr>)
      else s)"
  by pat_completeness auto
termination
  by (relation "measure (\<lambda>(s, pos, i). nat (sint (numPositions s) - i))") auto

function scanDown :: "AnalogSelectorFilter \<Rightarrow> int16 \<Rightarrow> int \<Rightarrow> AnalogSelectorFilter" where
  "scanDown s pos i =
     (if 0 \<le> i
      then (let LowerEdge = calculateEdge s (word_of_int i) Lower
            in if sint pos < sint LowerEdge then scanDown s pos (i - 1)
               else s\<lparr>currentSelection := word_of_int i,
                      edgeLow := LowerEdge,
                      edgeHigh := calculateEdge s (word_of_int i) Upper\<rparr>)
      else s)"
  by pat_completeness auto
termination
  by (relation "measure (\<lambda>(s, pos, i). nat (i + 1))") auto

declare scanUp.simps [simp del]
declare scanDown.simps [simp del]

definition clampPos :: "AnalogSelectorFilter \<Rightarrow> int16 \<Rightarrow> int16" where
  "clampPos s pos =
     (if sint pos < sint (rangeMin s) then rangeMin s
      else if sint (rangeMax s) < sint pos then rangeMax s else pos)"

definition calculateSelection ::
  "AnalogSelectorFilter \<Rightarrow> int16 \<Rightarrow> bool \<Rightarrow> uint16 \<times> AnalogSelectorFilter" where
  "calculateSelection s pos relative =
     (let p = clampPos s pos;
          s' = (if \<not> relative \<or> sint (edgeHigh s) < sint p
                then scanUp s p (if \<not> relative then 0 else sint (currentSelection s))
                else if sint p < sint (edgeLow s)
                then scanDown s p (sint (currentSelection s))
                else s)
      in (currentSelection s', s'))"

definition getPosition ::
  "AnalogSelectorFilter \<Rightarrow> int16 \<Rightarrow> (uint16 \<times> AnalogSelectorFilter) option" where
  "getPosition s pos =
     (let relative = \<not> configChanged s
      in if configChanged s
         then (case recalculateWidths s of
                 None \<Rightarrow> None
               | Some s' \<Rightarrow> Some (calculateSelection s' pos relative))
         else Some (calculateSelection s pos relative))"

text \<open>
  The constructor runs on the object's storage \<open>u\<close>, whose members hold whatever was
  there before; the initial reading is the argument \<open>rMin\<close> as it was passed.
\<close>

definition AnalogSelectorFilter_ctor ::
  "AnalogSelectorFilter \<Rightarrow> int16 \<Rightarrow> int16 \<Rightarrow> uint16 \<Rightarrow> binary32 \<Rightarrow> AnalogSelectorFilter option" where
  "AnalogSelectorFilter_ctor u rMin rMax numPos dz =
     map_option snd
       (getPosition (setDeadzone (setNumPositions (setRange u rMin rMax) numPos) dz) rMin)"

text \<open>A run of \<open>getPosition\<close> calls on one object, with the positions they return.\<close>

fun getPositions :: "AnalogSelectorFilter \<Rightarrow> int16 list \<Rightarrow> (uint16 list \<times> AnalogSelectorFilter) option" where
  "getPositions s [] = Some ([], s)"
| "getPositions s (pos # rest) =
     (case getPosition s pos of
        None \<Rightarrow> None
      | Some (sel, s') \<Rightarrow>
          (case getPositions s' rest of
             None \<Rightarrow> None
           | Some (sels, s'') \<Rightarrow> Some (sel # sels, s'')))"

section \<open>The formulas of the specification\<close>

text \<open>
  The edge of segment \<open>i\<close> as the specification words it, over unbounded integers: the
  upper edge of the last index \<open>numPositions - 1\<close> counts one deadzone less.
\<close>

definition spec_edge :: "AnalogSelectorFilter \<Rightarrow> int \<Rightarrow> Direction \<Rightarrow> int" where
  "spec_edge s i dir =
     (let raw = (case dir of
                   Upper \<Rightarrow> sint (rangeMin s) + uint (selectorWidth s) * (i + 1)
                            + uint (deadzoneWidth s)
                              * (if i \<noteq> uint (numPositions s) - 1 then i + 1 else i)
                 | Lower \<Rightarrow> sint (rangeMin s) + uint (selectorWidth s) * i
                            + uint (deadzoneWidth s) * (if i \<noteq> 0 then i - 1 else 0))
      in max (sint (rangeMin s)) (min (sint (rangeMax s)) raw))"

text \<open>Integer division that truncates towards zero, as the specification asks for.\<close>

definition tdiv :: "int \<Rightarrow> int \<Rightarrow> int" where
  "tdiv a b = sgn a * sgn b * (\<bar>a\<bar> div \<bar>b\<bar>)"

text \<open>
  The widths as the specification words them, over unbounded integers and with an exact
  product: the budget \<open>totalRange - numPositions\<close> is shared between the gaps, a
  fraction of the share is the deadzone width, and what the deadzones leave is shared
  between the positions.
\<close>

definition spec_deadzoneWidth :: "int \<Rightarrow> int \<Rightarrow> rat \<Rightarrow> int" where
  "spec_deadzoneWidth totalRange numPos fraction =
     (let gapCount = numPos - 1
      in if gapCount = 0 then 0
         else \<lfloor>of_int (tdiv (totalRange - numPos) gapCount) * fraction\<rfloor>)"

definition spec_segmentWidth :: "int \<Rightarrow> int \<Rightarrow> int \<Rightarrow> int" where
  "spec_segmentWidth totalRange numPos dzWidth =
     tdiv (totalRange - dzWidth * (numPos - 1)) numPos"

text \<open>The share of the budget that one gap can get at most.\<close>

definition spec_maxDeadzoneWidth :: "int \<Rightarrow> int \<Rightarrow> int" where
  "spec_maxDeadzoneWidth rng numPos =
     (let gapCount = numPos - 1
      in if gapCount = 0 then 0 else tdiv (rng - numPos) gapCount)"

section \<open>Values used in the examples\<close>

text \<open>An object's storage with every member zero.\<close>

definition zeroed :: AnalogSelectorFilter where
  "zeroed = \<lparr>configChanged = False, rangeMin = 0, rangeMax = 0, numPositions = 0,
     deadzoneSize = Finite 0, selectorWidth = 0, deadzoneWidth = 0, edgeLow = 0,
     currentSelection = 0, edgeHigh = 0\<rparr>"

text \<open>The binary32 number nearest to 0.1, which is what a \<^verbatim>\<open>float\<close> parameter given 0.1 holds.\<close>

definition tenth :: rat where
  "tenth = 13421773 / 134217728"

text \<open>A deadzone fraction as the setter leaves it when it is not a NaN.\<close>

definition in_unit_interval :: "binary32 \<Rightarrow> bool" where
  "in_unit_interval x = (case x of Finite q \<Rightarrow> 0 \<le> q \<and> q \<le> 1 | PlusInf \<Rightarrow> False
                         | MinusInf \<Rightarrow> False | NaN \<Rightarrow> False)"

text \<open>
  The filter that \<^verbatim>\<open>AnalogSelectorFilter(0, 100, 5, 0.0)\<close> constructs: five segments of width 20
  and no deadzone.
\<close>

definition five_positions :: AnalogSelectorFilter where
  "five_positions = \<lparr>configChanged = False, rangeMin = 0, rangeMax = 100, numPositions = 5,
     deadzoneSize = Finite 0, selectorWidth = 20, deadzoneWidth = 0, edgeLow = 0,
     currentSelection = 0, edgeHigh = 20\<rparr>"

text \<open>
  The filter that \<^verbatim>\<open>AnalogSelectorFilter(0, 100, 2, 0.1)\<close> constructs: two segments of width 45
  and a deadzone of width 9.
\<close>

definition two_positions :: AnalogSelectorFilter where
  "two_positions = \<lparr>configChanged = False, rangeMin = 0, rangeMax = 100, numPositions = 2,
     deadzoneSize = Finite tenth, selectorWidth = 45, deadzoneWidth = 9, edgeLow = 0,
     currentSelection = 0, edgeHigh = 54\<rparr>"

text \<open>
  That filter after the reading 60 has moved its selection to segment 1.
\<close>

definition two_positions_upper :: AnalogSelectorFilter where
  "two_positions_upper = two_positions\<lparr>currentSelection := 1, edgeLow := 45, edgeHigh := 100\<rparr>"

section \<open>Predicates on filter states\<close>

text \<open>The width of the input range, as an unbounded integer.\<close>

definition totalRange :: "AnalogSelectorFilter \<Rightarrow> int" where
  "totalRange s = sint (rangeMax s) - sint (rangeMin s)"

text \<open>A configuration whose range fits a signed 16-bit difference and holds at least one
  unit per position, with a deadzone fraction between 0 and 1.\<close>

definition regular :: "AnalogSelectorFilter \<Rightarrow> bool" where
  "regular s \<longleftrightarrow>
     sint (rangeMin s) \<le> sint (rangeMax s) \<and> totalRange s \<le> 32767
     \<and> 1 \<le> unat (numPositions s) \<and> int (unat (numPositions s)) \<le> totalRange s
     \<and> in_unit_interval (deadzoneSize s)"

text \<open>The configuration members as the three setters leave them, NaN apart.\<close>

definition normalised :: "AnalogSelectorFilter \<Rightarrow> bool" where
  "normalised s \<longleftrightarrow>
     sint (rangeMin s) \<le> sint (rangeMax s) \<and> numPositions s \<noteq> 0
     \<and> in_unit_interval (deadzoneSize s)"

text \<open>The segments and the deadzones between them fit into the range.\<close>

definition widthsFit :: "AnalogSelectorFilter \<Rightarrow> bool" where
  "widthsFit s \<longleftrightarrow>
     sint (rangeMin s) \<le> sint (rangeMax s) \<and> 1 \<le> unat (numPositions s)
     \<and> int (unat (selectorWidth s) * unat (numPositions s)
            + unat (deadzoneWidth s) * (unat (numPositions s) - 1)) \<le> totalRange s"

text \<open>The assignment both scans make when they stop at index \<open>k\<close>.\<close>

definition selected :: "AnalogSelectorFilter \<Rightarrow> int \<Rightarrow> AnalogSelectorFilter" where
  "selected s k = s\<lparr>currentSelection := word_of_int k,
                     edgeLow := calculateEdge s (word_of_int k) Lower,
                     edgeHigh := calculateEdge s (word_of_int k) Upper\<rparr>"

text \<open>The current selection is the index of a position.\<close>

definition selectionValid :: "AnalogSelectorFilter \<Rightarrow> bool" where
  "selectionValid s \<longleftrightarrow> unat (currentSelection s) < unat (numPositions s)"

text \<open>A call of one of the three setters, and a run of such calls on one object.\<close>

datatype SetterCall = SetRange int16 int16 | SetNumPositions uint16 | SetDeadzone binary32

fun callSetter :: "AnalogSelectorFilter \<Rightarrow> SetterCall \<Rightarrow> AnalogSelectorFilter" where
  "callSetter s (SetRange rMin rMax) = setRange s rMin rMax"
| "callSetter s (SetNumPositions numPos) = setNumPositions s numPos"
| "callSetter s (SetDeadzone dz) = setDeadzone s dz"

definition callSetters :: "AnalogSelectorFilter \<Rightarrow> SetterCall list \<Rightarrow> AnalogSelectorFilter" where
  "callSetters s cs = foldl callSetter s cs"

text \<open>
  Some segment, of the \<open>numPositions\<close> segments of the filter, has its upper edge at or
  above the clamped reading.
\<close>

definition matched :: "AnalogSelectorFilter \<Rightarrow> int16 \<Rightarrow> bool" where
  "matched w pos =
     list_ex (\<lambda>i. sint (clampPos w pos) \<le> sint (calculateEdge w (of_nat i) Upper))
       [0..<unat (numPositions w)]"

section \<open>Arithmetic of 16-bit words and binary32 products\<close>

lemma signed_take_bit_15:
  assumes "0 \<le> x" "x < 65536"
  shows "signed_take_bit 15 x = (if x < 32768 then x else x - (65536::int))"
proof -
  have e: "signed_take_bit 15 x = (x + 32768) mod 65536 - 32768"
    by (simp add: signed_take_bit_eq_take_bit_shift take_bit_eq_mod)
  show ?thesis
  proof (cases "x < 32768")
    case True
    then have "(x + 32768) mod 65536 = x + 32768" using assms by (simp add: mod_pos_pos_trivial)
    then show ?thesis using True e by simp
  next
    case False
    have "x + 32768 = (x - 32768) + 65536" by arith
    then have "(x + 32768) mod 65536 = ((x - 32768) + 65536) mod 65536" by (rule arg_cong)
    also have "\<dots> = (x - 32768) mod 65536" by (simp only: mod_add_self2)
    also have "\<dots> = x - 32768" using False assms by (simp add: mod_pos_pos_trivial)
    finally show ?thesis using False e by simp
  qed
qed

lemma sint16: "sint (w :: 16 word) = (if uint w < 32768 then uint w else uint w - 65536)"
proof -
  have "uint w < 65536" using uint_lt2p [of w] by simp
  moreover have "0 \<le> uint w" by simp
  ultimately have "signed_take_bit 15 (uint w) = (if uint w < 32768 then uint w else uint w - 65536)"
    using signed_take_bit_15 [of "uint w"] by blast
  then show ?thesis unfolding sint_uint by simp
qed

lemma unat16_bound: "unat (w :: 16 word) < 65536"
  using unsigned_less [of w, where 'a=nat] by simp

lemma sint16_nat:
  "sint (w :: 16 word) = (if unat w < 32768 then int (unat w) else int (unat w) - 65536)"
proof -
  have u: "uint w = int (unat w)" by simp
  have "(uint w < 32768) = (unat w < 32768)" unfolding u by linarith
  then show ?thesis unfolding sint16 [of w] u by simp
qed

lemma mod_65536_nat:
  assumes "s < 131072"
  shows "s mod 65536 = (if s < 65536 then s else s - (65536::nat))"
proof (cases "s < 65536")
  case True then show ?thesis by simp
next
  case False
  then have "s mod 65536 = (s - 65536) mod 65536" by (simp add: le_mod_geq)
  also have "\<dots> = s - 65536" using assms by simp
  finally show ?thesis using False by simp
qed

lemma unat_add16:
  "unat (a + b :: 16 word) = (if unat a + unat b < 65536 then unat a + unat b else unat a + unat b - 65536)"
proof -
  have "unat a + unat b < 131072" using unat16_bound [of a] unat16_bound [of b] by linarith
  then have "(unat a + unat b) mod 65536 = (if unat a + unat b < 65536 then unat a + unat b else unat a + unat b - 65536)"
    by (rule mod_65536_nat)
  then show ?thesis by (simp add: unat_word_ariths)
qed

lemma sint_add_offset:
  assumes "sint (a :: 16 word) + int (unat (b :: 16 word)) \<le> 32767"
  shows "sint (a + b) = sint a + int (unat b)"
proof -
  define x y where "x = unat a" and "y = unat b"
  have b: "x < 65536" "y < 65536" unfolding x_def y_def by (rule unat16_bound)+
  have sa: "sint a = (if x < 32768 then int x else int x - 65536)"
    unfolding x_def by (rule sint16_nat)
  have u: "unat (a + b) = (if x + y < 65536 then x + y else x + y - 65536)"
    unfolding x_def y_def by (rule unat_add16)
  have sab: "sint (a + b) = (if unat (a + b) < 32768 then int (unat (a + b)) else int (unat (a + b)) - 65536)"
    by (rule sint16_nat)
  from assms have "sint a + int y \<le> 32767" unfolding y_def .
  then show ?thesis using b unfolding sab u sa y_def [symmetric]
    by (auto split: if_splits)
qed

lemma unat_sub16:
  "unat (b - a :: 16 word) = (if unat a \<le> unat b then unat b - unat a else unat b + 65536 - unat a)"
proof (cases "unat a \<le> unat b")
  case True
  then have "a \<le> b" by (simp add: word_le_nat_alt)
  then show ?thesis using True by (simp add: unat_sub)
next
  case False
  have "b = (b - a) + a" by simp
  then have "unat b = unat ((b - a) + a)" by simp
  then have "unat b = (if unat (b - a) + unat a < 65536 then unat (b - a) + unat a else unat (b - a) + unat a - 65536)"
    by (simp only: unat_add16)
  then show ?thesis using False unat16_bound [of "b - a"] by (auto split: if_splits)
qed

lemma total_range_sub:
  assumes "sint (a :: 16 word) \<le> sint (b :: 16 word)" "sint b - sint a \<le> 32767"
  shows "int (unat (b - a)) = sint b - sint a"
proof -
  define x y where "x = unat a" and "y = unat b"
  have b: "x < 65536" "y < 65536" unfolding x_def y_def by (rule unat16_bound)+
  have sa: "sint a = (if x < 32768 then int x else int x - 65536)"
    unfolding x_def by (rule sint16_nat)
  have sb: "sint b = (if y < 32768 then int y else int y - 65536)"
    unfolding y_def by (rule sint16_nat)
  have u: "unat (b - a) = (if x \<le> y then y - x else y + 65536 - x)"
    unfolding x_def y_def by (rule unat_sub16)
  show ?thesis using assms b unfolding u sa sb
    by (auto split: if_splits)
qed

lemma total_range:
  assumes "sint (a :: 16 word) \<le> sint (b :: 16 word)" "sint b - sint a \<le> 32767"
  shows "int (unat (c_abs (b - a))) = sint b - sint a"
proof -
  have d: "int (unat (b - a)) = sint b - sint a" using assms by (rule total_range_sub)
  then have "unat (b - a) < 32768" using assms by linarith
  then have s: "sint (b - a) = int (unat (b - a))" by (simp only: sint16_nat if_True)
  show ?thesis
  proof (cases "0 < sint (b - a)")
    case True then show ?thesis using d by (simp only: c_abs_def if_True)
  next
    case False
    then have "unat (b - a) = 0" using s by linarith
    then have "b - a = 0" by (simp only: unat_eq_zero)
    then show ?thesis using d by (simp add: c_abs_def)
  qed
qed

lemma ucast_div_32:
  "(ucast ((ucast (x :: 16 word) :: 32 word) div ucast (n :: 16 word)) :: 16 word) = x div n"
proof -
  have a: "unat (ucast x :: 32 word) = unat x"
    using unat16_bound [of x] by (simp add: unsigned_ucast_eq take_bit_nat_eq_self)
  have b: "unat (ucast n :: 32 word) = unat n"
    using unat16_bound [of n] by (simp add: unsigned_ucast_eq take_bit_nat_eq_self)
  have "unat (ucast ((ucast x :: 32 word) div ucast n) :: 16 word)
          = unat ((ucast x :: 32 word) div ucast n) mod 65536"
    by (simp add: unsigned_ucast_eq take_bit_eq_mod)
  also have "\<dots> = (unat x div unat n) mod 65536"
    by (simp only: unat_div a b)
  also have "\<dots> = unat x div unat n"
  proof -
    have "unat x div unat n \<le> unat x" by (rule div_le_dividend)
    then have "unat x div unat n < 65536" using unat16_bound [of x] by linarith
    then show ?thesis by simp
  qed
  also have "\<dots> = unat (x div n)" by (simp add: unat_div)
  finally show ?thesis by (simp add: word_unat_eq_iff)
qed

lemma round_even_nonneg: "0 \<le> x \<Longrightarrow> 0 \<le> round_even x"
  by (auto simp: round_even_def Let_def)

lemma round_even_le_int: "x \<le> of_int N \<Longrightarrow> round_even x \<le> N"
proof -
  assume a: "x \<le> of_int N"
  have f: "\<lfloor>x\<rfloor> \<le> N" using a by (simp add: floor_le_iff) 
  show ?thesis
  proof (cases "x = of_int N")
    case True then show ?thesis by (simp add: round_even_def)
  next
    case False
    then have "x < of_int N" using a by simp
    then have "\<lfloor>x\<rfloor> < N" by (simp add: floor_less_iff)
    then show ?thesis by (auto simp: round_even_def Let_def)
  qed
qed

lemma float_round_bounded:
  assumes "0 \<le> x" "x \<le> of_nat m" "m < 2 ^ 24"
  shows "\<exists>r. float_round x = Finite r \<and> 0 \<le> r \<and> r \<le> of_nat m"
proof -
  define j where "j = scale_up 149 0 \<bar>x\<bar>"
  define R where "R = round_even (\<bar>x\<bar> * 2 ^ j)"
  have ax: "\<bar>x\<bar> = x" using assms by simp
  have lt: "\<bar>x\<bar> < 2 ^ 24"
  proof -
    have "x \<le> of_nat m" by fact
    also have "(of_nat m :: rat) < of_nat (2 ^ 24)" using assms(3) by (simp only: of_nat_less_iff)
    finally show ?thesis using ax by simp
  qed
  have fr: "float_round x = Finite (sgn x * of_int R / 2 ^ j)"
    using lt by (simp add: float_round_def Let_def j_def R_def)
  have R0: "0 \<le> R" unfolding R_def by (rule round_even_nonneg) simp
  have "\<bar>x\<bar> * 2 ^ j \<le> of_int (int m * 2 ^ j)" using assms ax by (simp add: mult_right_mono)
  then have R1: "R \<le> int m * 2 ^ j" unfolding R_def by (rule round_even_le_int)
  then have "(of_int R :: rat) \<le> of_int (int m * 2 ^ j)" by (simp only: of_int_le_iff)
  then have R2: "(of_int R :: rat) / 2 ^ j \<le> of_nat m" by (simp add: divide_le_eq)
  have R3: "0 \<le> (of_int R :: rat) / 2 ^ j" using R0 by simp
  have s: "sgn x = 0 \<or> sgn x = 1" using assms(1) by (cases "x = 0") auto
  have "0 \<le> sgn x * of_int R / 2 ^ j \<and> sgn x * of_int R / 2 ^ j \<le> of_nat m"
    using s R2 R3 by auto
  then show ?thesis using fr by blast
qed

lemma deadzone_product:
  assumes "0 \<le> q" "q \<le> 1"
  shows "\<exists>dw. float_to_uint (float_mul (float_of_uint m) (Finite q)) = Some dw \<and> unat dw \<le> unat m"
proof -
  define k where "k = unat m"
  have k16: "k < 65536" unfolding k_def by (rule unat16_bound)
  then have m: "k < 2 ^ 24" by simp
  have fm: "float_of_uint m = Finite (of_nat k)" by (simp add: float_of_uint_def k_def)
  have "0 \<le> of_nat k * q" "of_nat k * q \<le> of_nat k"
    using assms by (simp_all add: mult_left_le)
  from float_round_bounded [OF this m] obtain r where
    r: "float_round (of_nat k * q) = Finite r" "0 \<le> r" "r \<le> of_nat k" by blast
  have f0: "0 \<le> \<lfloor>r\<rfloor>" using r(2) by simp
  have f1: "\<lfloor>r\<rfloor> \<le> int k" using r(3) by (simp add: floor_le_iff) 
  have f2: "\<lfloor>r\<rfloor> < 65536" using f1 k16 by linarith
  have "unat (word_of_int \<lfloor>r\<rfloor> :: 16 word) = nat \<lfloor>r\<rfloor>"
    using f0 f2 by (simp add: unat_eq_nat_uint uint_word_of_int take_bit_int_eq_self)
  then have "unat (word_of_int \<lfloor>r\<rfloor> :: 16 word) \<le> k" using f1 by simp
  then show ?thesis using r f0 f2 unfolding fm k_def [symmetric]
    by (simp add: float_to_uint_def Let_def)
qed

lemma recalculateWidths_Some:
  assumes "float_to_uint (float_mul (float_of_uint
             (if numPositions s - 1 \<noteq> 0
              then (c_abs (rangeMax s - rangeMin s) - numPositions s) div (numPositions s - 1)
              else 0)) (deadzoneSize s)) = Some dw"
    and "numPositions s \<noteq> 0"
  shows "recalculateWidths s =
           Some (s\<lparr>deadzoneWidth := dw,
                   selectorWidth := (c_abs (rangeMax s - rangeMin s) - dw * (numPositions s - 1))
                                      div numPositions s,
                   configChanged := False\<rparr>)"
  using assms by (simp add: recalculateWidths_def Let_def ucast_div_32)

lemma recalculateWidths_regular:
  fixes s :: AnalogSelectorFilter and q :: rat
  defines "T \<equiv> nat (sint (rangeMax s) - sint (rangeMin s))"
    and "n \<equiv> unat (numPositions s)"
  defines "M \<equiv> (if n = 1 then 0 else (T - n) div (n - 1))"
  assumes r: "sint (rangeMin s) \<le> sint (rangeMax s)"
    and w: "sint (rangeMax s) - sint (rangeMin s) \<le> 32767"
    and n1: "1 \<le> n" and nT: "n \<le> T"
    and dz: "deadzoneSize s = Finite q" "0 \<le> q" "q \<le> 1"
  shows "\<exists>dw sw. recalculateWidths s
                    = Some (s\<lparr>deadzoneWidth := dw, selectorWidth := sw, configChanged := False\<rparr>)
           \<and> float_to_uint (float_mul (Finite (of_nat M)) (Finite q)) = Some dw
           \<and> unat dw \<le> M
           \<and> unat sw = (T - unat dw * (n - 1)) div n
           \<and> unat sw * n + unat dw * (n - 1) \<le> T"
proof -
  define TR where "TR = c_abs (rangeMax s - rangeMin s)"
  define ND where "ND = numPositions s - 1"
  define MW where "MW = (if ND \<noteq> 0 then (TR - numPositions s) div ND else 0)"
  have T16: "T < 65536" unfolding T_def using w by linarith
  have uTR: "unat TR = T"
    using total_range [OF r w] unfolding TR_def T_def by linarith
  have le1: "numPositions s \<le> TR" using nT uTR by (simp add: word_le_nat_alt n_def)
  have uDR: "unat (TR - numPositions s) = T - n"
    using le1 uTR by (simp add: unat_sub n_def)
  have "1 \<le> numPositions s" using n1 by (simp add: word_le_nat_alt n_def)
  then have uND: "unat ND = n - 1" unfolding ND_def by (simp add: unat_sub n_def)
  have ND0: "(ND \<noteq> 0) = (n \<noteq> 1)"
    using uND n1 by (metis One_nat_def Suc_pred le_add_diff_inverse plus_1_eq_Suc unat_eq_zero zero_less_one_class.zero_le_one diff_is_0_eq' le_antisym unsigned_0)
  have uMW: "unat MW = M"
    unfolding MW_def M_def using ND0 uND uDR by (simp add: unat_div)
  have np: "numPositions s \<noteq> 0" using n1 unfolding n_def by (metis not_one_le_zero unsigned_0)
  from deadzone_product [OF dz(2,3), of MW] obtain dw where
    dw: "float_to_uint (float_mul (float_of_uint MW) (Finite q)) = Some dw" "unat dw \<le> M"
    unfolding uMW by blast
  have fM: "float_of_uint MW = Finite (of_nat M)" by (simp add: float_of_uint_def uMW)
  have MT: "M * (n - 1) \<le> T - n"
    unfolding M_def by simp
  have "unat dw * (n - 1) \<le> M * (n - 1)" using dw(2) by (rule mult_le_mono1)
  then have b1: "unat dw * (n - 1) \<le> T - n" using MT by linarith
  then have "unat dw * unat ND < 2 ^ LENGTH(16)" using T16 uND by simp
  then have umul: "unat (dw * ND) = unat dw * (n - 1)"
    using uND by (simp add: unat_mult_lem [THEN iffD1])
  then have "dw * ND \<le> TR" using b1 uTR by (simp add: word_le_nat_alt)
  then have uSR: "unat (TR - dw * ND) = T - unat dw * (n - 1)"
    using umul uTR by (simp add: unat_sub)
  define sw where "sw = (TR - dw * ND) div numPositions s"
  have usw: "unat sw = (T - unat dw * (n - 1)) div n"
    unfolding sw_def by (simp add: unat_div uSR n_def)
  have "unat sw * n \<le> T - unat dw * (n - 1)" unfolding usw by simp
  then have fit: "unat sw * n + unat dw * (n - 1) \<le> T" using b1 by linarith
  have "float_to_uint (float_mul (float_of_uint
             (if numPositions s - 1 \<noteq> 0
              then (c_abs (rangeMax s - rangeMin s) - numPositions s) div (numPositions s - 1)
              else 0)) (deadzoneSize s)) = Some dw"
    using dw(1) unfolding MW_def ND_def TR_def dz(1) .
  then have "recalculateWidths s
          = Some (s\<lparr>deadzoneWidth := dw, selectorWidth := sw, configChanged := False\<rparr>)"
    unfolding sw_def TR_def ND_def using np by (rule recalculateWidths_Some)
  then show ?thesis using dw usw fit unfolding fM by blast
qed


lemma unat_of_nat16: "k < 65536 \<Longrightarrow> unat (of_nat k :: 16 word) = k"
  by (rule of_nat_inverse [OF refl]) simp

lemma sint_add_of_nat:
  assumes "k < 65536" "sint (a :: 16 word) + int k \<le> 32767"
  shows "sint (a + of_nat k) = sint a + int k"
proof -
  have "unat (of_nat k :: 16 word) = k" using assms(1) by (rule unat_of_nat16)
  then show ?thesis using sint_add_offset [of a "of_nat k"] assms(2) by simp
qed

lemma calculateEdge_bounds:
  assumes "sint (rangeMin s) \<le> sint (rangeMax s)"
  shows "sint (rangeMin s) \<le> sint (calculateEdge s i d)"
    and "sint (calculateEdge s i d) \<le> sint (rangeMax s)"
  using assms by (auto simp: calculateEdge_def Let_def)

lemma calculateEdge_raw:
  assumes "sint (rangeMin s) \<le> sint e" "sint e \<le> sint (rangeMax s)"
  shows "(let edge = e; edge1 = (if sint edge < sint (rangeMin s) then rangeMin s else edge)
          in if sint (rangeMax s) < sint edge1 then rangeMax s else edge1) = e"
  using assms by (simp add: Let_def)

lemma edge_lower:
  assumes f: "widthsFit s" and i: "i < unat (numPositions s)"
  shows "sint (calculateEdge s (of_nat i) Lower)
           = sint (rangeMin s) + int (unat (selectorWidth s) * i + unat (deadzoneWidth s) * (i - 1))"
proof -
  define sw dw n where "sw = unat (selectorWidth s)" and "dw = unat (deadzoneWidth s)"
    and "n = unat (numPositions s)"
  define k where "k = sw * i + dw * (i - 1)"
  have T: "int (sw * n + dw * (n - 1)) \<le> totalRange s" and r: "sint (rangeMin s) \<le> sint (rangeMax s)"
    using f unfolding widthsFit_def sw_def dw_def n_def by blast+
  have "sw * i \<le> sw * n" using i unfolding n_def by simp
  moreover have "dw * (i - 1) \<le> dw * (n - 1)"
    using i unfolding n_def by (intro mult_le_mono2) linarith
  ultimately have kT: "int k \<le> totalRange s" using T unfolding k_def by linarith
  have mx: "sint (rangeMax s) \<le> 32767" using sint_lt [of "rangeMax s"] by simp
  have mn: "- 32768 \<le> sint (rangeMin s)" using sint_ge [of "rangeMin s"] by simp
  have k16: "k < 65536" using kT mx mn unfolding totalRange_def by linarith
  have le: "sint (rangeMin s) + int k \<le> sint (rangeMax s)" using kT unfolding totalRange_def by linarith
  have i16: "i < 65536" using i unat16_bound [of "numPositions s"] by linarith
  have w: "rangeMin s + selectorWidth s * of_nat i
             + deadzoneWidth s * (if (of_nat i :: 16 word) \<noteq> 0 then of_nat i - 1 else of_nat i)
           = rangeMin s + of_nat k"
  proof (cases "i = 0")
    case True then show ?thesis by (simp add: k_def)
  next
    case False
    then have "(of_nat i :: 16 word) \<noteq> 0" using i16 by (intro of_nat_neq_0) simp_all
    moreover have "(of_nat i :: 16 word) - 1 = of_nat (i - 1)" using False by simp
    ultimately show ?thesis by (simp add: k_def sw_def dw_def)
  qed
  have sk: "sint (rangeMin s + of_nat k) = sint (rangeMin s) + int k"
    using k16 le mx by (intro sint_add_of_nat) linarith+
  have "calculateEdge s (of_nat i) Lower = rangeMin s + of_nat k"
    unfolding calculateEdge_def Direction.case w
    using sk le by (simp add: Let_def)
  then show ?thesis using sk unfolding k_def sw_def dw_def by simp
qed

lemma edge_upper_gen:
  assumes r: "sint (rangeMin s) \<le> sint (rangeMax s)" and i: "i < unat (numPositions s)"
    and b: "sint (rangeMin s)
              + int (unat (selectorWidth s) * (i + 1) + unat (deadzoneWidth s) * (i + 1)) \<le> 32767"
  shows "sint (calculateEdge s (of_nat i) Upper)
           = min (sint (rangeMax s))
               (sint (rangeMin s)
                 + int (unat (selectorWidth s) * (i + 1) + unat (deadzoneWidth s) * (i + 1)))"
proof -
  define sw dw where "sw = unat (selectorWidth s)" and "dw = unat (deadzoneWidth s)"
  define k where "k = sw * (i + 1) + dw * (i + 1)"
  have b': "sint (rangeMin s) + int k \<le> 32767" using b unfolding k_def sw_def dw_def .
  have mn: "- 32768 \<le> sint (rangeMin s)" using sint_ge [of "rangeMin s"] by simp
  have k16: "k < 65536" using b' mn by linarith
  have i16: "i < 65536" using i unat16_bound [of "numPositions s"] by linarith
  have "unat (of_nat i :: 16 word) = i" using i16 by (rule unat_of_nat16)
  then have ne: "(of_nat i :: 16 word) \<noteq> numPositions s" using i by auto
  have w: "rangeMin s + selectorWidth s * (of_nat i + 1)
             + deadzoneWidth s * (if (of_nat i :: 16 word) \<noteq> numPositions s then of_nat i + 1 else of_nat i)
           = rangeMin s + of_nat k"
    using ne by (simp add: k_def sw_def dw_def algebra_simps)
  have sk: "sint (rangeMin s + of_nat k) = sint (rangeMin s) + int k"
    using k16 b' by (rule sint_add_of_nat)
  have "sint (calculateEdge s (of_nat i) Upper) = min (sint (rangeMax s)) (sint (rangeMin s) + int k)"
    unfolding calculateEdge_def Direction.case w
    using sk r by (simp add: Let_def min_def)
  then show ?thesis unfolding k_def sw_def dw_def .
qed

lemma edge_upper_inner:
  assumes f: "widthsFit s" and i: "i + 1 < unat (numPositions s)"
  shows "sint (calculateEdge s (of_nat i) Upper)
           = sint (rangeMin s)
               + int (unat (selectorWidth s) * (i + 1) + unat (deadzoneWidth s) * (i + 1))"
proof -
  define sw dw n where "sw = unat (selectorWidth s)" and "dw = unat (deadzoneWidth s)"
    and "n = unat (numPositions s)"
  define k where "k = sw * (i + 1) + dw * (i + 1)"
  have T: "int (sw * n + dw * (n - 1)) \<le> totalRange s" and r: "sint (rangeMin s) \<le> sint (rangeMax s)"
    using f unfolding widthsFit_def sw_def dw_def n_def by blast+
  have "sw * (i + 1) \<le> sw * n" using i unfolding n_def by (intro mult_le_mono2) linarith
  moreover have "dw * (i + 1) \<le> dw * (n - 1)"
    using i unfolding n_def by (intro mult_le_mono2) linarith
  ultimately have kT: "int k \<le> totalRange s" using T unfolding k_def by linarith
  have mx: "sint (rangeMax s) \<le> 32767" using sint_lt [of "rangeMax s"] by simp
  have le: "sint (rangeMin s) + int k \<le> sint (rangeMax s)" using kT unfolding totalRange_def by linarith
  have i': "i < unat (numPositions s)" using i by linarith
  have "sint (calculateEdge s (of_nat i) Upper) = min (sint (rangeMax s)) (sint (rangeMin s) + int k)"
    unfolding k_def sw_def dw_def
    by (rule edge_upper_gen [OF r i']) (use le mx in \<open>simp add: k_def sw_def dw_def\<close>)
  then show ?thesis using le unfolding k_def sw_def dw_def by linarith
qed


lemma scanUp_found:
  assumes "i \<le> k" "k < sint (numPositions s)"
    and "\<not> sint (calculateEdge s (word_of_int k) Upper) < sint p"
    and "\<And>j. i \<le> j \<Longrightarrow> j < k \<Longrightarrow> sint (calculateEdge s (word_of_int j) Upper) < sint p"
  shows "scanUp s p i = selected s k"
  using assms
proof (induction s p i rule: scanUp.induct)
  case (1 s p i)
  show ?case
  proof (cases "i = k")
    case True
    then show ?thesis using "1.prems"(2,3) by (subst scanUp.simps) (simp add: selected_def Let_def)
  next
    case False
    then have lt: "i < k" using "1.prems"(1) by simp
    then have up: "sint (calculateEdge s (word_of_int i) Upper) < sint p"
      using "1.prems"(4) [of i] by simp
    have iN: "i < sint (numPositions s)" using lt "1.prems"(2) by simp
    have "scanUp s p (i + 1) = selected s k"
    proof (rule "1.IH" [OF iN refl up])
      show "i + 1 \<le> k" using lt by simp
      show "k < sint (numPositions s)" by (rule "1.prems"(2))
      show "\<not> sint (calculateEdge s (word_of_int k) Upper) < sint p" by (rule "1.prems"(3))
      show "sint (calculateEdge s (word_of_int j) Upper) < sint p" if "i + 1 \<le> j" "j < k" for j
        using that by (intro "1.prems"(4)) simp_all
    qed
    then show ?thesis using iN up by (subst scanUp.simps) (simp add: Let_def)
  qed
qed

lemma scanUp_none:
  assumes "\<And>j. i \<le> j \<Longrightarrow> j < sint (numPositions s)
             \<Longrightarrow> sint (calculateEdge s (word_of_int j) Upper) < sint p"
  shows "scanUp s p i = s"
  using assms
proof (induction s p i rule: scanUp.induct)
  case (1 s p i)
  show ?case
  proof (cases "i < sint (numPositions s)")
    case False then show ?thesis by (subst scanUp.simps) simp
  next
    case True
    then have up: "sint (calculateEdge s (word_of_int i) Upper) < sint p"
      using "1.prems" [of i] by simp
    have "scanUp s p (i + 1) = s"
    proof (rule "1.IH" [OF True refl up])
      show "sint (calculateEdge s (word_of_int j) Upper) < sint p"
        if "i + 1 \<le> j" "j < sint (numPositions s)" for j
        using that by (intro "1.prems") simp_all
    qed
    then show ?thesis using True up by (subst scanUp.simps) (simp add: Let_def)
  qed
qed

lemma first_index:
  fixes Q :: "int \<Rightarrow> bool"
  assumes "i0 \<le> k" "Q k"
  shows "\<exists>k'. i0 \<le> k' \<and> k' \<le> k \<and> Q k' \<and> (\<forall>j. i0 \<le> j \<and> j < k' \<longrightarrow> \<not> Q j)"
  using assms
proof (induction "nat (k - i0)" arbitrary: k rule: less_induct)
  case less
  show ?case
  proof (cases "\<exists>j. i0 \<le> j \<and> j < k \<and> Q j")
    case True
    then obtain j where j: "i0 \<le> j" "j < k" "Q j" by blast
    then have "nat (j - i0) < nat (k - i0)" by linarith
    from less.hyps [OF this j(1,3)] obtain k' where
      "i0 \<le> k'" "k' \<le> j" "Q k'" "\<forall>j. i0 \<le> j \<and> j < k' \<longrightarrow> \<not> Q j" by blast
    then show ?thesis using j(2) by (intro exI [of _ k']) auto
  next
    case False
    then show ?thesis using less.prems by (intro exI [of _ k]) auto
  qed
qed

lemma scanUp_cases:
  obtains (none) "scanUp s p i = s"
      "\<And>j. i \<le> j \<Longrightarrow> j < sint (numPositions s)
          \<Longrightarrow> sint (calculateEdge s (word_of_int j) Upper) < sint p"
  | (found) k where "i \<le> k" "k < sint (numPositions s)"
      "\<not> sint (calculateEdge s (word_of_int k) Upper) < sint p"
      "\<And>j. i \<le> j \<Longrightarrow> j < k \<Longrightarrow> sint (calculateEdge s (word_of_int j) Upper) < sint p"
      "scanUp s p i = selected s k"
proof (cases "\<exists>k. i \<le> k \<and> k < sint (numPositions s)
                \<and> \<not> sint (calculateEdge s (word_of_int k) Upper) < sint p")
  case False
  then have a: "sint (calculateEdge s (word_of_int j) Upper) < sint p"
    if "i \<le> j" "j < sint (numPositions s)" for j using that by blast
  then have "scanUp s p i = s" by (rule scanUp_none)
  then show ?thesis using a by (rule none)
next
  case True
  then obtain k0 where k0: "i \<le> k0" "k0 < sint (numPositions s)"
    "\<not> sint (calculateEdge s (word_of_int k0) Upper) < sint p" by blast
  define Q where "Q j = (\<not> sint (calculateEdge s (word_of_int j) Upper) < sint p)" for j
  have "Q k0" using k0(3) by (simp add: Q_def)
  from first_index [of i k0 Q, OF k0(1) this] obtain k where
    k: "i \<le> k" "k \<le> k0" "Q k" "\<forall>j. i \<le> j \<and> j < k \<longrightarrow> \<not> Q j" by blast
  have kN: "k < sint (numPositions s)" using k(2) k0(2) by linarith
  have nk: "\<not> sint (calculateEdge s (word_of_int k) Upper) < sint p" using k(3) by (simp add: Q_def)
  have fst: "sint (calculateEdge s (word_of_int j) Upper) < sint p" if "i \<le> j" "j < k" for j
    using k(4) that by (simp add: Q_def)
  have "scanUp s p i = selected s k" using k(1) kN nk fst by (rule scanUp_found)
  with k(1) kN nk fst show ?thesis by (rule found)
qed

lemma scanDown_result:
  "scanDown s p i = s
   \<or> (\<exists>k. 0 \<le> k \<and> k \<le> i
          \<and> \<not> sint p < sint (calculateEdge s (word_of_int k) Lower)
          \<and> (\<forall>j. k < j \<and> j \<le> i \<longrightarrow> sint p < sint (calculateEdge s (word_of_int j) Lower))
          \<and> scanDown s p i = selected s k)"
proof (induction s p i rule: scanDown.induct)
  case (1 s p i)
  show ?case
  proof (cases "0 \<le> i")
    case False then show ?thesis by (subst scanDown.simps) simp
  next
    case True
    show ?thesis
    proof (cases "sint p < sint (calculateEdge s (word_of_int i) Lower)")
      case False
      then have "scanDown s p i = selected s i"
        using True by (subst scanDown.simps) (simp add: selected_def Let_def)
      then show ?thesis using True False by (intro disjI2 exI [of _ i]) simp
    next
      case lo: True
      have e: "scanDown s p i = scanDown s p (i - 1)"
        using True lo by (subst scanDown.simps) (simp add: Let_def)
      from 1 [OF True refl lo] show ?thesis unfolding e
      proof (elim disjE exE conjE)
        assume "scanDown s p (i - 1) = s" then show "scanDown s p (i - 1) = s \<or> (\<exists>k\<ge>0. k \<le> i \<and>
             \<not> sint p < sint (calculateEdge s (word_of_int k) Lower) \<and>
             (\<forall>j. k < j \<and> j \<le> i \<longrightarrow> sint p < sint (calculateEdge s (word_of_int j) Lower)) \<and>
             scanDown s p (i - 1) = selected s k)" by simp
      next
        fix k assume k: "0 \<le> k" "k \<le> i - 1" "\<not> sint p < sint (calculateEdge s (word_of_int k) Lower)"
          "\<forall>j. k < j \<and> j \<le> i - 1 \<longrightarrow> sint p < sint (calculateEdge s (word_of_int j) Lower)"
          "scanDown s p (i - 1) = selected s k"
        have "\<forall>j. k < j \<and> j \<le> i \<longrightarrow> sint p < sint (calculateEdge s (word_of_int j) Lower)"
        proof (intro allI impI)
          fix j assume "k < j \<and> j \<le> i"
          then show "sint p < sint (calculateEdge s (word_of_int j) Lower)"
            using k(4) lo by (cases "j = i") auto
        qed
        then show "scanDown s p (i - 1) = s \<or> (\<exists>k\<ge>0. k \<le> i \<and>
             \<not> sint p < sint (calculateEdge s (word_of_int k) Lower) \<and>
             (\<forall>j. k < j \<and> j \<le> i \<longrightarrow> sint p < sint (calculateEdge s (word_of_int j) Lower)) \<and>
             scanDown s p (i - 1) = selected s k)"
          using k by (intro disjI2 exI [of _ k]) simp
      qed
    qed
  qed
qed

lemma calculateEdge_cong:
  assumes "rangeMin s = rangeMin t" "rangeMax s = rangeMax t" "numPositions s = numPositions t"
    "selectorWidth s = selectorWidth t" "deadzoneWidth s = deadzoneWidth t"
  shows "calculateEdge s = calculateEdge t"
  by (intro ext) (simp only: calculateEdge_def assms)

lemma selected_fields [simp]:
  "configChanged (selected s k) = configChanged s"
  "rangeMin (selected s k) = rangeMin s"
  "rangeMax (selected s k) = rangeMax s"
  "numPositions (selected s k) = numPositions s"
  "deadzoneSize (selected s k) = deadzoneSize s"
  "selectorWidth (selected s k) = selectorWidth s"
  "deadzoneWidth (selected s k) = deadzoneWidth s"
  "currentSelection (selected s k) = word_of_int k"
  "edgeLow (selected s k) = calculateEdge s (word_of_int k) Lower"
  "edgeHigh (selected s k) = calculateEdge s (word_of_int k) Upper"
  by (simp_all add: selected_def)

lemma calculateEdge_selected [simp]: "calculateEdge (selected s k) = calculateEdge s"
  by (rule calculateEdge_cong) simp_all


lemma unat_word_of_int_nonneg:
  assumes "0 \<le> k" "k < 65536"
  shows "unat (word_of_int k :: 16 word) = nat k"
proof -
  have "nat k < 65536" using assms by linarith
  then have u: "unat (of_nat (nat k) :: 16 word) = nat k" by (rule unat_of_nat16)
  have "(word_of_int k :: 16 word) = of_nat (nat k)" using assms(1) by (rule word_of_int_nat)
  then show ?thesis using u by (simp only:)
qed

lemma unat_word_of_int_neg:
  assumes "- 65536 \<le> k" "k < 0"
  shows "unat (word_of_int k :: 16 word) = nat (k + 65536)"
proof -
  have "k mod 65536 = (k + 65536) mod 65536" by (simp only: mod_add_self2)
  also have "\<dots> = k + 65536" using assms by (intro mod_pos_pos_trivial) linarith+
  finally have "uint (word_of_int k :: 16 word) = k + 65536" by (simp add: uint_word_of_int)
  then show ?thesis by (simp only: unat_eq_nat_uint)
qed

lemma sint_nonneg_unat:
  "0 \<le> sint (w :: 16 word) \<Longrightarrow> sint w = int (unat w)"
  "sint (w :: 16 word) < 0 \<Longrightarrow> sint w = int (unat w) - 65536"
  using unat16_bound [of w] unfolding sint16_nat [of w] by (auto split: if_splits)

lemma index_up_in_range:
  assumes "i0 \<le> k" "k < sint (n :: 16 word)"
    and "i0 = 0 \<or> (i0 = sint (c :: 16 word) \<and> unat c < unat n)"
  shows "unat (word_of_int k :: 16 word) < unat n"
proof (cases "0 \<le> k")
  case True
  then have "0 \<le> sint n" using assms(2) by linarith
  then have n: "sint n = int (unat n)" by (rule sint_nonneg_unat)
  have "k < 65536" using assms(2) n unat16_bound [of n] by linarith
  then have "unat (word_of_int k :: 16 word) = nat k" using True by (intro unat_word_of_int_nonneg)
  then show ?thesis using assms(2) n True by linarith
next
  case False
  then have k0: "k < 0" by simp
  then have i0: "i0 = sint c" "unat c < unat n" using assms(1,3) by auto
  then have "sint c < 0" using assms(1) k0 by linarith
  then have c: "sint c = int (unat c) - 65536" by (rule sint_nonneg_unat)
  have lo: "- 65536 \<le> k" using assms(1) i0 c by linarith
  have u: "unat (word_of_int k :: 16 word) = nat (k + 65536)" using lo k0 by (rule unat_word_of_int_neg)
  have "32768 \<le> unat c" using \<open>sint c < 0\<close> unfolding sint16_nat [of c] by (auto split: if_splits)
  then have "32768 \<le> unat n" using i0 by linarith
  then have "sint n = int (unat n) - 65536" unfolding sint16_nat [of n] by auto
  then show ?thesis using u assms(2) lo by linarith
qed

lemma index_down_in_range:
  assumes "0 \<le> k" "k \<le> sint (c :: 16 word)" "unat c < unat (n :: 16 word)"
  shows "unat (word_of_int k :: 16 word) < unat n"
proof -
  have "0 \<le> sint c" using assms by linarith
  then have c: "sint c = int (unat c)" by (rule sint_nonneg_unat)
  have "k < 65536" using assms(2) c unat16_bound [of c] by linarith
  then have "unat (word_of_int k :: 16 word) = nat k" using assms(1) by (intro unat_word_of_int_nonneg)
  then show ?thesis using assms c by linarith
qed


lemma calculateSelection_elim:
  obtains (stay) "calculateSelection s pos rel = (currentSelection s, s)"
  | (up) k where "calculateSelection s pos rel = (word_of_int k, selected s k)"
      "(if rel then sint (currentSelection s) else 0) \<le> k" "k < sint (numPositions s)"
      "sint (clampPos s pos) \<le> sint (calculateEdge s (word_of_int k) Upper)"
      "\<not> rel \<or> sint (edgeHigh s) < sint (clampPos s pos)"
      "\<And>j. (if rel then sint (currentSelection s) else 0) \<le> j \<Longrightarrow> j < k
          \<Longrightarrow> sint (calculateEdge s (word_of_int j) Upper) < sint (clampPos s pos)"
  | (down) k where "calculateSelection s pos rel = (word_of_int k, selected s k)"
      "rel" "0 \<le> k" "k \<le> sint (currentSelection s)"
      "sint (calculateEdge s (word_of_int k) Lower) \<le> sint (clampPos s pos)"
      "sint (clampPos s pos) < sint (edgeLow s)"
      "\<And>j. k < j \<Longrightarrow> j \<le> sint (currentSelection s)
          \<Longrightarrow> sint (clampPos s pos) < sint (calculateEdge s (word_of_int j) Lower)"
proof -
  define p where "p = clampPos s pos"
  consider (a) "\<not> rel \<or> sint (edgeHigh s) < sint p"
    | (b) "\<not> (\<not> rel \<or> sint (edgeHigh s) < sint p)" "sint p < sint (edgeLow s)"
    | (c) "\<not> (\<not> rel \<or> sint (edgeHigh s) < sint p)" "\<not> sint p < sint (edgeLow s)"
    by blast
  then show ?thesis
  proof cases
    case a
    define i0 where "i0 = (if \<not> rel then 0 else sint (currentSelection s))"
    have e: "calculateSelection s pos rel = (currentSelection (scanUp s p i0), scanUp s p i0)"
      using a by (simp add: calculateSelection_def Let_def p_def i0_def)
    show ?thesis
    proof (cases rule: scanUp_cases [of s p i0])
      case none then show ?thesis using e stay by simp
    next
      case (found k)
      show ?thesis
      proof (rule up [of k])
        show "calculateSelection s pos rel = (word_of_int k, selected s k)" using e found(5) by simp
        show "(if rel then sint (currentSelection s) else 0) \<le> k" using found(1) by (auto simp: i0_def)
        show "k < sint (numPositions s)" by (rule found(2))
        show "sint (clampPos s pos) \<le> sint (calculateEdge s (word_of_int k) Upper)"
          using found(3) by (simp add: p_def)
        show "\<not> rel \<or> sint (edgeHigh s) < sint (clampPos s pos)" using a by (simp add: p_def)
        show "sint (calculateEdge s (word_of_int j) Upper) < sint (clampPos s pos)"
          if "(if rel then sint (currentSelection s) else 0) \<le> j" "j < k" for j
          unfolding p_def [symmetric] using that by (intro found(4)) (auto simp: i0_def)
      qed
    qed
  next
    case b
    have e: "calculateSelection s pos rel
               = (currentSelection (scanDown s p (sint (currentSelection s))),
                  scanDown s p (sint (currentSelection s)))"
      using b by (simp add: calculateSelection_def Let_def p_def)
    from scanDown_result [of s p "sint (currentSelection s)"]
    consider "scanDown s p (sint (currentSelection s)) = s"
      | k where "0 \<le> k" "k \<le> sint (currentSelection s)"
        "\<not> sint p < sint (calculateEdge s (word_of_int k) Lower)"
        "\<forall>j. k < j \<and> j \<le> sint (currentSelection s)
             \<longrightarrow> sint p < sint (calculateEdge s (word_of_int j) Lower)"
        "scanDown s p (sint (currentSelection s)) = selected s k"
      by blast
    then show ?thesis
    proof cases
      case 1 then show ?thesis using e stay by simp
    next
      case (2 k)
      show ?thesis
      proof (rule down [of k])
        show "calculateSelection s pos rel = (word_of_int k, selected s k)" using e 2(5) by simp
        show rel using b by simp
        show "0 \<le> k" "k \<le> sint (currentSelection s)" by (rule 2(1), rule 2(2))
        show "sint (calculateEdge s (word_of_int k) Lower) \<le> sint (clampPos s pos)"
          using 2(3) by (simp add: p_def)
        show "sint (clampPos s pos) < sint (edgeLow s)" using b by (simp add: p_def)
        show "sint (clampPos s pos) < sint (calculateEdge s (word_of_int j) Lower)"
          if "k < j" "j \<le> sint (currentSelection s)" for j
          using 2(4) that by (simp add: p_def)
      qed
    qed
  next
    case c
    then have "calculateSelection s pos rel = (currentSelection s, s)"
      by (simp add: calculateSelection_def Let_def p_def)
    then show ?thesis by (rule stay)
  qed
qed


lemma recalculateWidths_cases:
  obtains (undefined) "recalculateWidths s = None"
  | (defined) dw sw where
      "recalculateWidths s
         = Some (s\<lparr>deadzoneWidth := dw, selectorWidth := sw, configChanged := False\<rparr>)"
      "numPositions s \<noteq> 0"
proof (cases "float_to_uint (float_mul (float_of_uint
             (if numPositions s - 1 \<noteq> 0
              then (c_abs (rangeMax s - rangeMin s) - numPositions s) div (numPositions s - 1)
              else 0)) (deadzoneSize s))")
  case None
  then have "recalculateWidths s = None" by (simp add: recalculateWidths_def Let_def)
  then show ?thesis by (rule undefined)
next
  case (Some dw)
  show ?thesis
  proof (cases "numPositions s = 0")
    case True
    then have "recalculateWidths s = None" using Some by (simp add: recalculateWidths_def Let_def)
    then show ?thesis by (rule undefined)
  next
    case False
    from recalculateWidths_Some [OF Some False] show ?thesis using False by (rule defined)
  qed
qed

lemma recalculateWidths_fields:
  assumes "recalculateWidths s = Some w"
  shows "w = s\<lparr>deadzoneWidth := deadzoneWidth w, selectorWidth := selectorWidth w,
               configChanged := False\<rparr>"
proof (cases rule: recalculateWidths_cases [of s])
  case undefined then show ?thesis using assms by simp
next
  case (defined dw sw)
  then have "w = s\<lparr>deadzoneWidth := dw, selectorWidth := sw, configChanged := False\<rparr>"
    using assms by simp
  then show ?thesis by simp
qed

lemma recalculateWidths_keeps:
  assumes "recalculateWidths s = Some w"
  shows "rangeMin w = rangeMin s" "rangeMax w = rangeMax s" "numPositions w = numPositions s"
    "deadzoneSize w = deadzoneSize s" "edgeLow w = edgeLow s" "edgeHigh w = edgeHigh s"
    "currentSelection w = currentSelection s" "configChanged w = False" "numPositions s \<noteq> 0"
proof -
  have w: "w = s\<lparr>deadzoneWidth := deadzoneWidth w, selectorWidth := selectorWidth w,
               configChanged := False\<rparr>" using assms by (rule recalculateWidths_fields)
  show "rangeMin w = rangeMin s" by (subst w) simp
  show "rangeMax w = rangeMax s" by (subst w) simp
  show "numPositions w = numPositions s" by (subst w) simp
  show "deadzoneSize w = deadzoneSize s" by (subst w) simp
  show "edgeLow w = edgeLow s" by (subst w) simp
  show "edgeHigh w = edgeHigh s" by (subst w) simp
  show "currentSelection w = currentSelection s" by (subst w) simp
  show "configChanged w = False" by (subst w) simp
  show "numPositions s \<noteq> 0" using assms by (cases rule: recalculateWidths_cases [of s]) simp_all
qed

lemma recalculateWidths_defined:
  assumes "numPositions s \<noteq> 0" "in_unit_interval (deadzoneSize s)"
  shows "\<exists>w. recalculateWidths s = Some w"
proof -
  from assms(2) obtain q where q: "deadzoneSize s = Finite q" "0 \<le> q" "q \<le> 1"
    by (cases "deadzoneSize s") (simp_all add: in_unit_interval_def)
  from deadzone_product [OF q(2,3)] obtain dw where
    "float_to_uint (float_mul (float_of_uint
             (if numPositions s - 1 \<noteq> 0
              then (c_abs (rangeMax s - rangeMin s) - numPositions s) div (numPositions s - 1)
              else 0)) (Finite q)) = Some dw" by blast
  then show ?thesis using recalculateWidths_Some [of s dw] assms(1) q(1) by simp
qed

lemma recalculateWidths_config:
  assumes "recalculateWidths s = Some w"
    and c: "rangeMin t = rangeMin s" "rangeMax t = rangeMax s" "numPositions t = numPositions s"
      "deadzoneSize t = deadzoneSize s"
  shows "recalculateWidths t = Some (t\<lparr>deadzoneWidth := deadzoneWidth w,
                                         selectorWidth := selectorWidth w,
                                         configChanged := False\<rparr>)"
proof (cases "float_to_uint (float_mul (float_of_uint
             (if numPositions s - 1 \<noteq> 0
              then (c_abs (rangeMax s - rangeMin s) - numPositions s) div (numPositions s - 1)
              else 0)) (deadzoneSize s))")
  case None
  then have "recalculateWidths s = None" by (simp add: recalculateWidths_def Let_def)
  then show ?thesis using assms(1) by simp
next
  case (Some dw)
  have np: "numPositions s \<noteq> 0" using assms(1) by (rule recalculateWidths_keeps)
  from recalculateWidths_Some [OF Some np] assms(1)
  have w: "deadzoneWidth w = dw"
    "selectorWidth w = (c_abs (rangeMax s - rangeMin s) - dw * (numPositions s - 1)) div numPositions s"
    by auto
  have "float_to_uint (float_mul (float_of_uint
             (if numPositions t - 1 \<noteq> 0
              then (c_abs (rangeMax t - rangeMin t) - numPositions t) div (numPositions t - 1)
              else 0)) (deadzoneSize t)) = Some dw"
    unfolding c by (rule Some)
  moreover have "numPositions t \<noteq> 0" unfolding c by (rule np)
  ultimately have "recalculateWidths t =
           Some (t\<lparr>deadzoneWidth := dw,
                   selectorWidth := (c_abs (rangeMax t - rangeMin t) - dw * (numPositions t - 1))
                                      div numPositions t,
                   configChanged := False\<rparr>)" by (rule recalculateWidths_Some)
  then show ?thesis unfolding c w .
qed

lemma calculateSelection_in_range:
  assumes "unat (currentSelection s) < unat (numPositions s)"
    and "calculateSelection s pos rel = (sel, s')"
  shows "sel = currentSelection s' \<and> numPositions s' = numPositions s
         \<and> unat (currentSelection s') < unat (numPositions s')"
proof (cases rule: calculateSelection_elim [of s pos rel])
  case stay then show ?thesis using assms by simp
next
  case (up k)
  have "unat (word_of_int k :: 16 word) < unat (numPositions s)"
    by (rule index_up_in_range [OF up(2,3), of "currentSelection s"]) (use assms(1) in auto)
  then show ?thesis using up(1) assms(2) by auto
next
  case (down k)
  have "unat (word_of_int k :: 16 word) < unat (numPositions s)"
    using down(3,4) assms(1) by (rule index_down_in_range)
  then show ?thesis using down(1) assms(2) by auto
qed

lemma getPosition_in_range:
  assumes "unat (currentSelection s) < unat (numPositions s)"
    and "getPosition s pos = Some (sel, s')"
  shows "sel = currentSelection s' \<and> numPositions s' = numPositions s
         \<and> unat (currentSelection s') < unat (numPositions s')"
proof (cases "configChanged s")
  case False
  then have "calculateSelection s pos True = (sel, s')" using assms(2) by (simp add: getPosition_def)
  with assms(1) show ?thesis by (rule calculateSelection_in_range)
next
  case True
  then obtain w where w: "recalculateWidths s = Some w" "calculateSelection w pos False = (sel, s')"
    using assms(2) by (auto simp: getPosition_def split: option.splits)
  have "unat (currentSelection w) < unat (numPositions w)"
    using assms(1) recalculateWidths_keeps [OF w(1)] by simp
  from calculateSelection_in_range [OF this w(2)] show ?thesis
    using recalculateWidths_keeps(3) [OF w(1)] by auto
qed


lemma setDeadzone_clamps:
  "dz \<noteq> NaN \<Longrightarrow> in_unit_interval (deadzoneSize (setDeadzone s dz))"
  by (cases dz) (simp_all add: setDeadzone_def in_unit_interval_def)

lemma setDeadzone_fixed:
  "in_unit_interval dz \<Longrightarrow> setDeadzone s dz = s\<lparr>deadzoneSize := dz, configChanged := True\<rparr>"
  by (cases dz) (simp_all add: setDeadzone_def in_unit_interval_def)

lemma setRange_ordered:
  "sint (rangeMin (setRange s a b)) \<le> sint (rangeMax (setRange s a b))"
  by (simp add: setRange_def)

lemma setRange_stored:
  "(rangeMin (setRange s a b), rangeMax (setRange s a b))
     = (if sint b < sint a then (b, a) else (a, b))"
  by (simp add: setRange_def)

lemma setNumPositions_stored:
  "numPositions (setNumPositions s n) = (if n = 0 then 1 else n)"
  by (simp add: setNumPositions_def)

lemma clampPos_bounds:
  assumes "sint (rangeMin s) \<le> sint (rangeMax s)"
  shows "sint (rangeMin s) \<le> sint (clampPos s pos)" "sint (clampPos s pos) \<le> sint (rangeMax s)"
  using assms by (auto simp: clampPos_def)

lemma full_scan_bottom:
  assumes r: "sint (rangeMin w) \<le> sint (rangeMax w)"
    and n: "1 \<le> unat (numPositions w)" "unat (numPositions w) \<le> 32767"
    and p: "sint (clampPos w pos) \<le> sint (rangeMin w)"
  shows "calculateSelection w pos False = (0, selected w 0)"
proof -
  have "sint (numPositions w) = int (unat (numPositions w))"
    using n(2) unfolding sint16_nat [of "numPositions w"] by simp
  then have "0 < sint (numPositions w)" using n(1) by linarith
  moreover have "\<not> sint (calculateEdge w (word_of_int 0) Upper) < sint (clampPos w pos)"
    using calculateEdge_bounds(1) [OF r, of 0 Upper] p by simp
  ultimately have "scanUp w (clampPos w pos) 0 = selected w 0"
    by (intro scanUp_found) simp_all
  then show ?thesis by (simp add: calculateSelection_def Let_def)
qed

lemma ctor_bottom:
  assumes "sint rMin \<le> sint rMax" "unat numPos \<le> 32767" "dz \<noteq> NaN"
  shows "\<exists>w. recalculateWidths (setDeadzone (setNumPositions (setRange u rMin rMax) numPos) dz) = Some w
             \<and> AnalogSelectorFilter_ctor u rMin rMax numPos dz = Some (selected w 0)"
proof -
  define s0 where "s0 = setDeadzone (setNumPositions (setRange u rMin rMax) numPos) dz"
  have c: "configChanged s0" by (simp add: s0_def setDeadzone_def)
  have rm: "rangeMin s0 = rMin" "rangeMax s0 = rMax"
    using assms(1) by (simp_all add: s0_def setDeadzone_def setNumPositions_def setRange_def)
  have np: "numPositions s0 = (if numPos = 0 then 1 else numPos)"
    by (simp add: s0_def setDeadzone_def setNumPositions_def)
  have dz: "in_unit_interval (deadzoneSize s0)" unfolding s0_def using assms(3) by (rule setDeadzone_clamps)
  have n0: "numPositions s0 \<noteq> 0" unfolding np by simp
  have n1: "1 \<le> unat (numPositions s0)" using n0 by (simp add: unat_gt_0 Suc_le_eq)
  have n2: "unat (numPositions s0) \<le> 32767" unfolding np using assms(2) by simp
  from recalculateWidths_defined [OF n0 dz] obtain w where w: "recalculateWidths s0 = Some w" by blast
  note k = recalculateWidths_keeps [OF w]
  have "calculateSelection w rMin False = (0, selected w 0)"
  proof (rule full_scan_bottom)
    show "sint (rangeMin w) \<le> sint (rangeMax w)" using assms(1) unfolding k rm .
    show "1 \<le> unat (numPositions w)" "unat (numPositions w) \<le> 32767" using n1 n2 unfolding k .
    show "sint (clampPos w rMin) \<le> sint (rangeMin w)"
      using assms(1) by (simp add: clampPos_def k rm)
  qed
  then have "getPosition s0 rMin = Some (0, selected w 0)"
    using c w by (simp add: getPosition_def)
  then have "AnalogSelectorFilter_ctor u rMin rMax numPos dz = Some (selected w 0)"
    by (simp add: AnalogSelectorFilter_ctor_def s0_def)
  then show ?thesis using w unfolding s0_def by blast
qed

lemma edge_lower_zero:
  assumes "sint (rangeMin s) \<le> sint (rangeMax s)"
  shows "calculateEdge s 0 Lower = rangeMin s"
  using assms by (simp add: calculateEdge_def Let_def)

lemma full_scan_first:
  assumes n: "1 \<le> unat (numPositions w)" "unat (numPositions w) \<le> 32767"
    and p: "sint (clampPos w pos) \<le> sint (calculateEdge w 0 Upper)"
  shows "calculateSelection w pos False = (0, selected w 0)"
proof -
  have "sint (numPositions w) = int (unat (numPositions w))"
    using n(2) unfolding sint16_nat [of "numPositions w"] by simp
  then have "0 < sint (numPositions w)" using n(1) by linarith
  moreover have "\<not> sint (calculateEdge w (word_of_int 0) Upper) < sint (clampPos w pos)"
    using p by simp
  ultimately have "scanUp w (clampPos w pos) 0 = selected w 0"
    by (intro scanUp_found) simp_all
  then show ?thesis by (simp add: calculateSelection_def Let_def)
qed

lemma stays_inside:
  assumes "\<not> configChanged t" "sint (rangeMin t) \<le> sint (rangeMax t)"
    and "sint (edgeLow t) \<le> sint (rangeMin t)" "sint (rangeMax t) \<le> sint (edgeHigh t)"
  shows "getPosition t pos = Some (currentSelection t, t)"
proof -
  have "sint (rangeMin t) \<le> sint (clampPos t pos)" "sint (clampPos t pos) \<le> sint (rangeMax t)"
    using assms(2) by (rule clampPos_bounds)+
  then have "\<not> sint (edgeHigh t) < sint (clampPos t pos)" "\<not> sint (clampPos t pos) < sint (edgeLow t)"
    using assms(3,4) by linarith+
  then show ?thesis using assms(1) by (simp add: getPosition_def calculateSelection_def Let_def)
qed

lemma getPositions_stay:
  assumes "\<not> configChanged t" "sint (rangeMin t) \<le> sint (rangeMax t)"
    and "sint (edgeLow t) \<le> sint (rangeMin t)" "sint (rangeMax t) \<le> sint (edgeHigh t)"
  shows "getPositions t rs = Some (replicate (length rs) (currentSelection t), t)"
  by (induction rs) (simp_all add: stays_inside [OF assms])

lemma upper_zero_single:
  assumes r: "sint (rangeMin s) \<le> sint (rangeMax s)" and T: "totalRange s \<le> 32767"
    and n: "unat (numPositions s) = 1" and T1: "1 \<le> totalRange s"
    and dz: "in_unit_interval (deadzoneSize s)"
    and w: "recalculateWidths s = Some w"
  shows "sint (calculateEdge w 0 Upper) = sint (rangeMax w)"
proof -
  from dz obtain q where q: "deadzoneSize s = Finite q" "0 \<le> q" "q \<le> 1"
    by (cases "deadzoneSize s") (simp_all add: in_unit_interval_def)
  have a: "sint (rangeMax s) - sint (rangeMin s) \<le> 32767" using T by (simp add: totalRange_def)
  have b: "1 \<le> unat (numPositions s)" using n by simp
  have c: "unat (numPositions s) \<le> nat (sint (rangeMax s) - sint (rangeMin s))"
    using n T1 by (simp add: totalRange_def)
  from recalculateWidths_regular [OF r a b c q] obtain dw sw where
    e: "recalculateWidths s
          = Some (s\<lparr>deadzoneWidth := dw, selectorWidth := sw, configChanged := False\<rparr>)"
    and d: "unat dw \<le> (if unat (numPositions s) = 1 then 0
              else (nat (sint (rangeMax s) - sint (rangeMin s)) - unat (numPositions s))
                     div (unat (numPositions s) - 1))"
    and u: "unat sw = (nat (sint (rangeMax s) - sint (rangeMin s))
                        - unat dw * (unat (numPositions s) - 1)) div unat (numPositions s)"
    by blast
  have dw0: "unat dw = 0" using d n by simp
  have swT: "int (unat sw) = sint (rangeMax s) - sint (rangeMin s)" using u n dw0 r by simp
  have weq: "w = s\<lparr>deadzoneWidth := dw, selectorWidth := sw, configChanged := False\<rparr>"
    using e w by simp
  have f: "rangeMin w = rangeMin s" "rangeMax w = rangeMax s" "numPositions w = numPositions s"
    "selectorWidth w = sw" "deadzoneWidth w = dw" by (simp_all add: weq)
  have mx: "sint (rangeMax s) \<le> 32767" using sint_lt [of "rangeMax s"] by simp
  have "sint (calculateEdge w (of_nat 0) Upper)
          = min (sint (rangeMax w))
              (sint (rangeMin w)
                + int (unat (selectorWidth w) * (0 + 1) + unat (deadzoneWidth w) * (0 + 1)))"
  proof (rule edge_upper_gen)
    show "sint (rangeMin w) \<le> sint (rangeMax w)" unfolding f by (rule r)
    show "0 < unat (numPositions w)" unfolding f using n by simp
    show "sint (rangeMin w)
            + int (unat (selectorWidth w) * (0 + 1) + unat (deadzoneWidth w) * (0 + 1)) \<le> 32767"
      unfolding f using swT dw0 mx by simp
  qed
  then show ?thesis unfolding f using swT dw0 by simp
qed

lemma sint_pos_bound:
  assumes "0 < sint (w :: 16 word)"
  shows "unat w \<le> 32767"
proof (cases "unat w < 32768")
  case True then show ?thesis by simp
next
  case False
  then have "sint w = int (unat w) - 65536" by (simp only: sint16_nat if_False)
  then show ?thesis using assms unat16_bound [of w] by linarith
qed

lemma callSetter_dirty: "configChanged (callSetter s c)"
  by (cases c) (simp_all add: setRange_def setNumPositions_def setDeadzone_def)

lemma callSetters_dirty: "cs \<noteq> [] \<Longrightarrow> configChanged (callSetters s cs)"
  by (cases cs rule: rev_cases) (simp_all add: callSetters_def callSetter_dirty)

lemma matched_first:
  assumes "matched w pos" and n: "unat (numPositions w) \<le> 32767"
  shows "\<exists>k. 0 \<le> k \<and> k < sint (numPositions w)
           \<and> \<not> sint (calculateEdge w (word_of_int k) Upper) < sint (clampPos w pos)
           \<and> (\<forall>j. 0 \<le> j \<and> j < k
                  \<longrightarrow> sint (calculateEdge w (word_of_int j) Upper) < sint (clampPos w pos))"
proof -
  from assms(1) obtain i where i: "i < unat (numPositions w)"
    "sint (clampPos w pos) \<le> sint (calculateEdge w (of_nat i) Upper)"
    by (auto simp: matched_def list_ex_iff)
  have sn: "sint (numPositions w) = int (unat (numPositions w))"
    using n unfolding sint16_nat [of "numPositions w"] by simp
  define Q where "Q k = (\<not> sint (calculateEdge w (word_of_int k) Upper) < sint (clampPos w pos))" for k
  have "Q (int i)" using i(2) by (simp add: Q_def)
  from first_index [of 0 "int i" Q, OF _ this] obtain k where
    k: "0 \<le> k" "k \<le> int i" "Q k" "\<forall>j. 0 \<le> j \<and> j < k \<longrightarrow> \<not> Q j" by auto
  have "k < sint (numPositions w)" using k(2) i(1) unfolding sn by linarith
  then show ?thesis using k unfolding Q_def by (intro exI [of _ k]) auto
qed

lemma full_scan_matched:
  assumes "0 \<le> k" "k < sint (numPositions w)"
    and "\<not> sint (calculateEdge w (word_of_int k) Upper) < sint (clampPos w pos)"
    and "\<forall>j. 0 \<le> j \<and> j < k
            \<longrightarrow> sint (calculateEdge w (word_of_int j) Upper) < sint (clampPos w pos)"
  shows "calculateSelection w pos False = (word_of_int k, selected w k)"
proof -
  have "scanUp w (clampPos w pos) 0 = selected w k"
    using assms by (intro scanUp_found) auto
  then show ?thesis by (simp add: calculateSelection_def Let_def)
qed

lemma round_even_ge_int: "of_int N \<le> x \<Longrightarrow> N \<le> round_even x"
proof -
  assume "of_int N \<le> x"
  then have "N \<le> \<lfloor>x\<rfloor>" by (simp add: le_floor_iff)
  then show ?thesis by (auto simp: round_even_def Let_def)
qed

lemma float_round_between:
  assumes "of_nat l \<le> x" "x \<le> of_nat m" "m < 2 ^ 24"
  shows "\<exists>r. float_round x = Finite r \<and> of_nat l \<le> r \<and> r \<le> of_nat m"
proof -
  have x0: "0 \<le> x" using assms(1) by (rule order_trans [rotated]) simp
  from float_round_bounded [OF x0 assms(2,3)] obtain r where
    r: "float_round x = Finite r" "0 \<le> r" "r \<le> of_nat m" by blast
  define j where "j = scale_up 149 0 \<bar>x\<bar>"
  define R where "R = round_even (\<bar>x\<bar> * 2 ^ j)"
  have ax: "\<bar>x\<bar> = x" using x0 by simp
  have lt: "\<bar>x\<bar> < 2 ^ 24"
  proof -
    have "x \<le> of_nat m" by fact
    also have "(of_nat m :: rat) < of_nat (2 ^ 24)" using assms(3) by (simp only: of_nat_less_iff)
    finally show ?thesis using ax by simp
  qed
  have fr: "float_round x = Finite (sgn x * of_int R / 2 ^ j)"
    using lt by (simp add: float_round_def Let_def j_def R_def)
  have "of_nat l \<le> r"
  proof (cases "x = 0")
    case True
    then have "l = 0" using assms(1) by simp
    then show ?thesis using r(2) by simp
  next
    case False
    then have sg: "sgn x = 1" using x0 by simp
    have "of_int (int l * 2 ^ j) \<le> \<bar>x\<bar> * 2 ^ j" using assms(1) ax by (simp add: mult_right_mono)
    then have "int l * 2 ^ j \<le> R" unfolding R_def by (rule round_even_ge_int)
    then have "(of_int (int l * 2 ^ j) :: rat) \<le> of_int R" by (simp only: of_int_le_iff)
    then have "of_nat l \<le> (of_int R :: rat) / 2 ^ j" by (simp add: le_divide_eq)
    then show ?thesis using fr r(1) sg by simp
  qed
  then show ?thesis using r by blast
qed

lemma deadzone_product_floor:
  assumes "0 \<le> q" "q \<le> 1"
  shows "\<exists>dw. float_to_uint (float_mul (float_of_uint m) (Finite q)) = Some dw
           \<and> unat dw \<le> unat m
           \<and> \<lfloor>of_nat (unat m) * q\<rfloor> \<le> int (unat dw)
           \<and> int (unat dw) \<le> \<lceil>of_nat (unat m) * q\<rceil>"
proof -
  define k where "k = unat m"
  define x where "x = of_nat k * q"
  have k16: "k < 65536" unfolding k_def by (rule unat16_bound)
  have fm: "float_of_uint m = Finite (of_nat k)" by (simp add: float_of_uint_def k_def)
  have x0: "0 \<le> x" and xk: "x \<le> of_nat k"
    unfolding x_def using assms by (simp_all add: mult_left_le)
  have c0: "0 \<le> \<lceil>x\<rceil>" and f0x: "0 \<le> \<lfloor>x\<rfloor>" using x0 by simp_all
  have ck: "\<lceil>x\<rceil> \<le> int k" using xk by (simp add: ceiling_le_iff)
  have a: "of_nat (nat \<lfloor>x\<rfloor>) \<le> x" using f0x by simp
  have b: "x \<le> of_nat (nat \<lceil>x\<rceil>)" using c0 by (simp add: le_of_int_ceiling)
  have c: "nat \<lceil>x\<rceil> < 2 ^ 24" using ck k16 by simp
  from float_round_between [OF a b c] obtain r where
    r: "float_round x = Finite r" "of_nat (nat \<lfloor>x\<rfloor>) \<le> r" "r \<le> of_nat (nat \<lceil>x\<rceil>)" by blast
  have lo: "\<lfloor>x\<rfloor> \<le> \<lfloor>r\<rfloor>" using r(2) f0x by (simp add: le_floor_iff)
  have hi: "\<lfloor>r\<rfloor> \<le> \<lceil>x\<rceil>" using r(3) c0 by (simp add: floor_le_iff)
  have f0: "0 \<le> \<lfloor>r\<rfloor>" using lo f0x by linarith
  have r0: "0 \<le> r" using f0 by simp
  have f2: "\<lfloor>r\<rfloor> < 65536" using hi ck k16 by linarith
  have u: "unat (word_of_int \<lfloor>r\<rfloor> :: 16 word) = nat \<lfloor>r\<rfloor>"
    using f0 f2 by (rule unat_word_of_int_nonneg)
  have e: "float_to_uint (float_mul (float_of_uint m) (Finite q)) = Some (word_of_int \<lfloor>r\<rfloor>)"
    using r(1) r0 f0 f2 unfolding fm x_def by (simp add: float_to_uint_def Let_def)
  have "nat \<lfloor>r\<rfloor> \<le> k" using hi ck by linarith
  moreover have "\<lfloor>x\<rfloor> \<le> int (nat \<lfloor>r\<rfloor>)" using lo f0 by linarith
  moreover have "int (nat \<lfloor>r\<rfloor>) \<le> \<lceil>x\<rceil>" using hi f0 by linarith
  ultimately show ?thesis using e unfolding u [symmetric] x_def k_def by blast
qed

lemma spec_deadzoneWidth_alt:
  "spec_deadzoneWidth T n q = \<lfloor>of_int (spec_maxDeadzoneWidth T n) * q\<rfloor>"
  by (simp add: spec_deadzoneWidth_def spec_maxDeadzoneWidth_def Let_def)

lemma tdiv_nonneg: "0 \<le> a \<Longrightarrow> 0 < b \<Longrightarrow> tdiv a b = a div b"
  by (cases "a = 0") (simp_all add: tdiv_def)

lemma regular_facts:
  assumes "regular s"
  shows "sint (rangeMin s) \<le> sint (rangeMax s)" "totalRange s \<le> 32767"
    "1 \<le> unat (numPositions s)" "int (unat (numPositions s)) \<le> totalRange s"
    "in_unit_interval (deadzoneSize s)"
  using assms unfolding regular_def by blast+

lemma regular_widthsFit:
  assumes "regular s" "recalculateWidths s = Some w"
  shows "widthsFit w" "\<not> configChanged w" "unat (numPositions w) \<le> 32767"
proof -
  note g = regular_facts [OF assms(1)]
  note k = recalculateWidths_keeps [OF assms(2)]
  have wd: "sint (rangeMax s) - sint (rangeMin s) \<le> 32767" using g(2) unfolding totalRange_def .
  have nT: "unat (numPositions s) \<le> nat (sint (rangeMax s) - sint (rangeMin s))"
    using g(4) unfolding totalRange_def by linarith
  from g(5) obtain q where q: "deadzoneSize s = Finite q" "0 \<le> q" "q \<le> 1"
    by (cases "deadzoneSize s") (simp_all add: in_unit_interval_def)
  from recalculateWidths_regular [OF g(1) wd g(3) nT q] obtain dw sw where
    e: "recalculateWidths s
          = Some (s\<lparr>deadzoneWidth := dw, selectorWidth := sw, configChanged := False\<rparr>)"
    and f: "unat sw * unat (numPositions s) + unat dw * (unat (numPositions s) - 1)
              \<le> nat (sint (rangeMax s) - sint (rangeMin s))"
    by blast
  have w: "deadzoneWidth w = dw" "selectorWidth w = sw" using e assms(2) by auto
  have "int (unat (selectorWidth w) * unat (numPositions w)
            + unat (deadzoneWidth w) * (unat (numPositions w) - 1)) \<le> totalRange w"
    using f g(1) unfolding w k totalRange_def by linarith
  then show "widthsFit w" using g(1,3) unfolding widthsFit_def k by blast
  show "\<not> configChanged w" using k(8) by simp
  show "unat (numPositions w) \<le> 32767" using g(2,4) unfolding k by linarith
qed

lemma edge_upper_all:
  assumes f: "widthsFit s"
    and b: "sint (rangeMax s) + int (unat (deadzoneWidth s)) \<le> 32767"
    and i: "i < unat (numPositions s)"
  shows "sint (calculateEdge s (of_nat i) Upper)
           = min (sint (rangeMax s))
               (sint (rangeMin s)
                 + int (unat (selectorWidth s) * (i + 1) + unat (deadzoneWidth s) * (i + 1)))"
proof -
  define sw dw n where "sw = unat (selectorWidth s)" and "dw = unat (deadzoneWidth s)"
    and "n = unat (numPositions s)"
  have T: "int (sw * n + dw * (n - 1)) \<le> totalRange s" and r: "sint (rangeMin s) \<le> sint (rangeMax s)"
    using f unfolding widthsFit_def sw_def dw_def n_def by blast+
  have "sw * (i + 1) \<le> sw * n" using i unfolding n_def by (intro mult_le_mono2) linarith
  moreover have "dw * (i + 1) \<le> dw * n" using i unfolding n_def by (intro mult_le_mono2) linarith
  moreover have "dw * n = dw * (n - 1) + dw"
  proof -
    have "n = (n - 1) + 1" using i unfolding n_def by linarith
    then have "dw * n = dw * ((n - 1) + 1)" by simp
    then show ?thesis by (simp only: distrib_left mult_1_right)
  qed
  ultimately have "int (sw * (i + 1) + dw * (i + 1)) \<le> totalRange s + int dw"
    using T by linarith
  then have "sint (rangeMin s) + int (sw * (i + 1) + dw * (i + 1)) \<le> 32767"
    using b unfolding totalRange_def dw_def by linarith
  then show ?thesis unfolding sw_def dw_def by (intro edge_upper_gen [OF r i])
qed

lemma clampPos_id:
  assumes "sint (rangeMin s) \<le> sint pos" "sint pos \<le> sint (rangeMax s)"
  shows "clampPos s pos = pos"
  using assms by (simp add: clampPos_def)

lemma stays_between:
  assumes "\<not> configChanged t"
    and "sint (edgeLow t) \<le> sint (clampPos t pos)" "sint (clampPos t pos) \<le> sint (edgeHigh t)"
  shows "getPosition t pos = Some (currentSelection t, t)"
  using assms by (simp add: getPosition_def calculateSelection_def Let_def)

lemma sint_small:
  assumes "unat (w :: 16 word) \<le> 32767"
  shows "sint w = int (unat w)"
  using assms unfolding sint16_nat [of w] by simp

lemma unat_succ:
  assumes "unat (i :: 16 word) + 1 < 65536"
  shows "unat (i + 1) = unat i + 1"
  using assms unfolding unat_add16 [of i 1] by simp

lemma word_of_int_unat: "word_of_int (int (unat (i :: 16 word))) = i"
  by simp

lemma moved_up_one:
  assumes clean: "\<not> configChanged s" and n: "unat (numPositions s) \<le> 32767"
    and i: "unat (currentSelection s) + 1 < unat (numPositions s)"
    and mv: "getPosition s r = Some (currentSelection s + 1, s1)"
  shows "s1 = selected s (int (unat (currentSelection s)) + 1)"
    and "sint (calculateEdge s (currentSelection s) Upper) < sint (clampPos s r)"
    and "sint (clampPos s r) \<le> sint (calculateEdge s (currentSelection s + 1) Upper)"
proof -
  define ni where "ni = unat (currentSelection s)"
  have ni: "ni + 1 < unat (numPositions s)" using i by (simp add: ni_def)
  have si: "sint (currentSelection s) = int ni"
    unfolding ni_def using i n by (intro sint_small) linarith
  have sn: "sint (numPositions s) = int (unat (numPositions s))" using n by (rule sint_small)
  have u1: "unat (currentSelection s + 1) = ni + 1"
    unfolding ni_def using i n by (intro unat_succ) linarith
  have cs: "calculateSelection s r True = (currentSelection s + 1, s1)"
    using mv clean by (simp add: getPosition_def)
  have main: "s1 = selected s (int ni + 1)
      \<and> sint (calculateEdge s (currentSelection s) Upper) < sint (clampPos s r)
      \<and> sint (clampPos s r) \<le> sint (calculateEdge s (currentSelection s + 1) Upper)"
  proof (cases rule: calculateSelection_elim [of s r True])
    case stay
    then have "currentSelection s + 1 = currentSelection s" using cs by simp
    then have "unat (currentSelection s + 1) = unat (currentSelection s)" by simp
    then show ?thesis unfolding u1 ni_def by simp
  next
    case (up k)
    have k0: "int ni \<le> k" using up(2) si by simp
    have kn: "k < int (unat (numPositions s))" using up(3) sn by simp
    have w: "(word_of_int k :: 16 word) = currentSelection s + 1" using up(1) cs by simp
    have "unat (word_of_int k :: 16 word) = nat k"
      using k0 kn n by (intro unat_word_of_int_nonneg) linarith+
    then have "nat k = ni + 1" unfolding w u1 by simp
    then have k: "k = int ni + 1" using k0 by linarith
    have "sint (calculateEdge s (word_of_int (int ni)) Upper) < sint (clampPos s r)"
      using si k by (intro up(6)) simp_all
    then have a: "sint (calculateEdge s (currentSelection s) Upper) < sint (clampPos s r)"
      unfolding ni_def word_of_int_unat .
    have b: "sint (clampPos s r) \<le> sint (calculateEdge s (currentSelection s + 1) Upper)"
      using up(4) unfolding w .
    have "s1 = selected s k" using up(1) cs by simp
    then show ?thesis using a b k by simp
  next
    case (down k)
    have "k \<le> int ni" using down(4) si by simp
    have w: "(word_of_int k :: 16 word) = currentSelection s + 1" using down(1) cs by simp
    have "unat (word_of_int k :: 16 word) = nat k"
      using \<open>k \<le> int ni\<close> down(3) ni n by (intro unat_word_of_int_nonneg) linarith+
    then have "nat k = ni + 1" unfolding w u1 by simp
    then show ?thesis using \<open>k \<le> int ni\<close> by linarith
  qed
  show "s1 = selected s (int (unat (currentSelection s)) + 1)" using main unfolding ni_def by blast
  show "sint (calculateEdge s (currentSelection s) Upper) < sint (clampPos s r)" using main by blast
  show "sint (clampPos s r) \<le> sint (calculateEdge s (currentSelection s + 1) Upper)"
    using main by blast
qed

lemma lower_next_le_upper:
  assumes f: "widthsFit s" and i: "unat (i :: 16 word) + 1 < unat (numPositions s)"
  shows "sint (calculateEdge s (i + 1) Lower) \<le> sint (calculateEdge s i Upper)"
proof -
  define ni where "ni = unat i"
  have a: "of_nat ni = i" by (simp add: ni_def)
  have b: "(of_nat (ni + 1) :: 16 word) = i + 1" by (simp add: ni_def)
  have i1: "ni + 1 < unat (numPositions s)" using i by (simp add: ni_def)
  have L: "sint (calculateEdge s (of_nat (ni + 1)) Lower)
             = sint (rangeMin s)
                 + int (unat (selectorWidth s) * (ni + 1) + unat (deadzoneWidth s) * (ni + 1 - 1))"
    using f i1 by (rule edge_lower)
  have U: "sint (calculateEdge s (of_nat ni) Upper)
             = sint (rangeMin s)
                 + int (unat (selectorWidth s) * (ni + 1) + unat (deadzoneWidth s) * (ni + 1))"
    using f i1 by (rule edge_upper_inner)
  have "unat (deadzoneWidth s) * (ni + 1 - 1) \<le> unat (deadzoneWidth s) * (ni + 1)"
    by (intro mult_le_mono2) linarith
  then show ?thesis using L U unfolding a b by linarith
qed

lemma above_step:
  assumes clean: "\<not> configChanged t" and r: "sint (rangeMin t) \<le> sint (rangeMax t)"
    and n: "unat (numPositions t) \<le> 32767"
    and m: "m < unat (currentSelection t)" and c: "unat (currentSelection t) < unat (numPositions t)"
    and L: "sint (calculateEdge t (of_nat (m + 1)) Lower) \<le> sint pos"
  shows "\<exists>t'. getPosition t pos = Some (currentSelection t', t')
           \<and> \<not> configChanged t' \<and> rangeMin t' = rangeMin t \<and> rangeMax t' = rangeMax t
           \<and> numPositions t' = numPositions t \<and> calculateEdge t' = calculateEdge t
           \<and> m < unat (currentSelection t')
           \<and> unat (currentSelection t') < unat (numPositions t')"
proof -
  have sc: "sint (currentSelection t) = int (unat (currentSelection t))"
    using c n by (intro sint_small) linarith
  have sn: "sint (numPositions t) = int (unat (numPositions t))" using n by (rule sint_small)
  have g: "getPosition t pos = Some (calculateSelection t pos True)"
    using clean by (simp add: getPosition_def)
  have pL: "sint (calculateEdge t (of_nat (m + 1)) Lower) \<le> sint (clampPos t pos)"
    using L calculateEdge_bounds [OF r, of "of_nat (m + 1)" Lower]
    by (auto simp: clampPos_def)
  show ?thesis
  proof (cases rule: calculateSelection_elim [of t pos True])
    case stay
    then show ?thesis using g clean m c by (intro exI [of _ t]) simp
  next
    case (up k)
    have k0: "int (unat (currentSelection t)) \<le> k" using up(2) sc by simp
    have kn: "k < int (unat (numPositions t))" using up(3) sn by simp
    have u: "unat (word_of_int k :: 16 word) = nat k"
      using k0 kn n by (intro unat_word_of_int_nonneg) linarith+
    have "m < unat (word_of_int k :: 16 word)" "unat (word_of_int k :: 16 word) < unat (numPositions t)"
      unfolding u using k0 kn m by linarith+
    then show ?thesis using g up(1) clean by (intro exI [of _ "selected t k"]) simp
  next
    case (down k)
    have kc: "k \<le> int (unat (currentSelection t))" using down(4) sc by simp
    have u: "unat (word_of_int k :: 16 word) = nat k"
      using kc down(3) c n by (intro unat_word_of_int_nonneg) linarith+
    have "int m < k"
    proof (rule ccontr)
      assume "\<not> int m < k"
      then have "k < int (m + 1)" by linarith
      moreover have "int (m + 1) \<le> sint (currentSelection t)" using m sc by linarith
      ultimately have "sint (clampPos t pos) < sint (calculateEdge t (word_of_int (int (m + 1))) Lower)"
        by (rule down(7))
      then show False using pL by simp
    qed
    then have "m < unat (word_of_int k :: 16 word)" "unat (word_of_int k :: 16 word) < unat (numPositions t)"
      unfolding u using kc c by linarith+
    then show ?thesis using g down(1) clean by (intro exI [of _ "selected t k"]) simp
  qed
qed

lemma above_run:
  assumes "\<not> configChanged t" "sint (rangeMin t) \<le> sint (rangeMax t)"
    and "unat (numPositions t) \<le> 32767"
    and "m < unat (currentSelection t)" "unat (currentSelection t) < unat (numPositions t)"
    and "list_all (\<lambda>r. sint (calculateEdge t (of_nat (m + 1)) Lower) \<le> sint r) rs"
  shows "\<exists>sels t2. getPositions t rs = Some (sels, t2) \<and> list_all (\<lambda>c. m < unat c) sels"
  using assms
proof (induction rs arbitrary: t)
  case Nil then show ?case by simp
next
  case (Cons r rs)
  have L: "sint (calculateEdge t (of_nat (m + 1)) Lower) \<le> sint r" using Cons.prems(6) by simp
  from above_step [OF Cons.prems(1-5) L] obtain t' where
    t': "getPosition t r = Some (currentSelection t', t')" "\<not> configChanged t'"
      "rangeMin t' = rangeMin t" "rangeMax t' = rangeMax t" "numPositions t' = numPositions t"
      "calculateEdge t' = calculateEdge t" "m < unat (currentSelection t')"
      "unat (currentSelection t') < unat (numPositions t')" by blast
  have "\<exists>sels t2. getPositions t' rs = Some (sels, t2) \<and> list_all (\<lambda>c. m < unat c) sels"
  proof (rule Cons.IH)
    show "\<not> configChanged t'" by (rule t'(2))
    show "sint (rangeMin t') \<le> sint (rangeMax t')" unfolding t'(3,4) by (rule Cons.prems(2))
    show "unat (numPositions t') \<le> 32767" unfolding t'(5) by (rule Cons.prems(3))
    show "m < unat (currentSelection t')" by (rule t'(7))
    show "unat (currentSelection t') < unat (numPositions t')" by (rule t'(8))
    show "list_all (\<lambda>r. sint (calculateEdge t' (word_of_nat (m + 1)) Lower) \<le> sint r) rs"
      unfolding t'(6) using Cons.prems(6) by simp
  qed
  then obtain sels t2 where "getPositions t' rs = Some (sels, t2)" "list_all (\<lambda>c. m < unat c) sels"
    by blast
  then show ?case using t'(1,7) by simp
qed

section \<open>Evaluation on concrete inputs\<close>

lemmas eval_defs =
  AnalogSelectorFilter_ctor_def setRange_def setNumPositions_def setDeadzone_def
  getPosition_def recalculateWidths_def c_abs_def calculateSelection_def clampPos_def
  scanUp.simps scanDown.simps calculateEdge_def

lemma tenth_nearest: "float_round (1 / 10) = Finite tenth"
  unfolding tenth_def by code_simp

lemma tenth_range: "\<not> tenth < 0" "\<not> 1 < tenth"
  by (simp_all add: tenth_def)

lemma product_98_tenth:
  "float_to_uint (float_mul (float_of_uint 98) (Finite tenth)) = Some 9"
  unfolding tenth_def by code_simp

lemma product_zero: "float_to_uint (float_mul (float_of_uint m) (Finite 0)) = Some 0"
  by (simp add: float_of_uint_def float_round_def round_even_def float_to_uint_def)

lemma round_half_65535: "float_round (65535 / 2) = Finite (65535 / 2)"
  by code_simp

lemma floor_half_65535: "\<lfloor>65535 / 2 :: rat\<rfloor> = 32767"
  by (rule floor_unique) simp_all

lemma product_65535_half:
  "float_to_uint (float_mul (float_of_uint (- 1)) (Finite (1 / 2))) = Some 32767"
  by (simp add: float_of_uint_def unsigned_minus_1_eq_mask mask_eq_exp_minus_1
      round_half_65535 float_to_uint_def floor_half_65535)

lemma floor_minus_half: "\<lfloor>- (1 / 2 :: rat)\<rfloor> = - 1"
  by (rule floor_unique) simp_all

lemma round_half_32767: "float_round (32767 / 2) = Finite (32767 / 2)"
  by code_simp

lemma floor_half_32767: "\<lfloor>32767 / 2 :: rat\<rfloor> = 16383"
  by (rule floor_unique) simp_all

lemma product_32767_half:
  "float_to_uint (float_mul (float_of_uint 32767) (Finite (1 / 2))) = Some 16383"
  by (simp add: float_of_uint_def round_half_32767 float_to_uint_def floor_half_32767)

lemma round_eighth_65535: "float_round (65535 / 8) = Finite (65535 / 8)"
  by code_simp

lemma floor_eighth_65535: "\<lfloor>65535 / 8 :: rat\<rfloor> = 8191"
  by (rule floor_unique) simp_all

lemma product_65535_eighth:
  "float_to_uint (float_mul (float_of_uint (- 1)) (Finite (1 / 8))) = Some 8191"
  by (simp add: float_of_uint_def unsigned_minus_1_eq_mask mask_eq_exp_minus_1
      round_eighth_65535 float_to_uint_def floor_eighth_65535)

lemma product_10_seven_tenths:
  "float_round (7 / 10) = Finite (11744051 / 16777216)"
  "float_to_uint (float_mul (float_of_uint 10) (Finite (11744051 / 16777216))) = Some 7"
  "\<lfloor>10 * (11744051 / 16777216 :: rat)\<rfloor> = 6"
  by code_simp+

lemma edges_two_positions:
  "\<exists>s. AnalogSelectorFilter_ctor u 0 100 2 (Finite tenth) = Some s
       \<and> selectorWidth s = 45 \<and> deadzoneWidth s = 9
       \<and> sint (calculateEdge s 0 Lower) = 0 \<and> sint (calculateEdge s 0 Upper) = 54
       \<and> sint (calculateEdge s 1 Lower) = 45"
  by (simp add: eval_defs product_98_tenth tenth_range)

lemma five_positions_constructed:
  "AnalogSelectorFilter_ctor zeroed 0 100 5 (Finite 0) = Some five_positions"
  by (simp add: eval_defs product_zero zeroed_def five_positions_def)

lemma two_positions_constructed:
  "AnalogSelectorFilter_ctor zeroed 0 100 2 (Finite tenth) = Some two_positions"
  by (simp add: eval_defs product_98_tenth tenth_range zeroed_def two_positions_def)

lemma two_positions_regular:
  "regular two_positions" "recalculateWidths two_positions = Some two_positions"
  using tenth_range
  by (simp_all add: two_positions_def regular_def totalRange_def in_unit_interval_def not_less
      recalculateWidths_def c_abs_def product_98_tenth)


section \<open>The claims\<close>

text \<open>
  C1. A filter constructed with range 0..100, two positions and deadzone 0.1 (the
  constructor evaluates the reading 0) answers the readings 50, 60, 50, 44 with the
  positions 0, 1, 1, 0, whatever the object's storage held before.
\<close>

theorem scenario_two_positions:
  "\<exists>s. AnalogSelectorFilter_ctor u 0 100 2 (Finite tenth) = Some s
       \<and> map_option fst (getPositions s [50, 60, 50, 44]) = Some [0, 1, 1, 0]"
  by (simp add: eval_defs product_98_tenth tenth_range)

text \<open>
  C2. Take a clean filter whose widths are those recalculated from a regular
  configuration (range in order and no wider than 32767, between two positions and as
  many as the range is wide, deadzone fraction between 0 and 1) and whose selection is a
  segment \<open>i\<close> that is not the last. If an evaluation moves the selection to \<open>i + 1\<close>, an
  evaluation at exactly the upper edge of \<open>i\<close> returns \<open>i + 1\<close> again and changes nothing,
  and whatever readings follow, as long as each is at or above the lower edge of
  \<open>i + 1\<close>, every evaluation returns an index above \<open>i\<close>.
\<close>

theorem hysteresis:
  assumes reg: "regular s" and clean: "recalculateWidths s = Some s"
    and i: "unat (currentSelection s) + 1 < unat (numPositions s)"
    and mv: "getPosition s r = Some (currentSelection s + 1, s1)"
  shows "getPosition s1 (calculateEdge s (currentSelection s) Upper)
           = Some (currentSelection s + 1, s1)
       \<and> (\<forall>rs. list_all (\<lambda>r. sint (calculateEdge s (currentSelection s + 1) Lower) \<le> sint r) rs
              \<longrightarrow> (\<exists>sels s2. getPositions s1 rs = Some (sels, s2)
                      \<and> list_all (\<lambda>c. unat (currentSelection s) < unat c) sels))"
proof -
  have f: "widthsFit s" and c: "\<not> configChanged s" and n: "unat (numPositions s) \<le> 32767"
    using reg clean by (rule regular_widthsFit)+
  have r: "sint (rangeMin s) \<le> sint (rangeMax s)" using reg by (rule regular_facts)
  define k where "k = int (unat (currentSelection s)) + 1"
  note mu = moved_up_one [OF c n i mv]
  have s1: "s1 = selected s k" using mu(1) by (simp add: k_def)
  have wk: "(word_of_int k :: 16 word) = currentSelection s + 1" by (simp add: k_def)
  have f1: "\<not> configChanged s1" "rangeMin s1 = rangeMin s" "rangeMax s1 = rangeMax s"
    "numPositions s1 = numPositions s" "calculateEdge s1 = calculateEdge s"
    "currentSelection s1 = currentSelection s + 1"
    "edgeLow s1 = calculateEdge s (currentSelection s + 1) Lower"
    "edgeHigh s1 = calculateEdge s (currentSelection s + 1) Upper"
    using c by (simp_all add: s1 wk)
  define q where "q = calculateEdge s (currentSelection s) Upper"
  have qb: "sint (rangeMin s) \<le> sint q" "sint q \<le> sint (rangeMax s)"
    unfolding q_def using r by (rule calculateEdge_bounds)+
  have cq: "clampPos s1 q = q" using qb by (intro clampPos_id) (simp_all add: f1)
  have "sint (edgeLow s1) \<le> sint q"
    unfolding f1 q_def using f i by (rule lower_next_le_upper)
  then have lo: "sint (edgeLow s1) \<le> sint (clampPos s1 q)" by (simp only: cq)
  have "sint q \<le> sint (edgeHigh s1)"
    unfolding f1 q_def using mu(2,3) by linarith
  then have hi: "sint (clampPos s1 q) \<le> sint (edgeHigh s1)" by (simp only: cq)
  have A: "getPosition s1 q = Some (currentSelection s + 1, s1)"
    using stays_between [OF f1(1) lo hi] by (simp add: f1)
  have u1: "unat (currentSelection s + 1) = unat (currentSelection s) + 1"
    using i n by (intro unat_succ) linarith
  have B: "\<exists>sels s2. getPositions s1 rs = Some (sels, s2)
                      \<and> list_all (\<lambda>c. unat (currentSelection s) < unat c) sels"
    if rs: "list_all (\<lambda>r. sint (calculateEdge s (currentSelection s + 1) Lower) \<le> sint r) rs" for rs
  proof (rule above_run)
    show "\<not> configChanged s1" by (rule f1(1))
    show "sint (rangeMin s1) \<le> sint (rangeMax s1)" unfolding f1 by (rule r)
    show "unat (numPositions s1) \<le> 32767" unfolding f1 by (rule n)
    show "unat (currentSelection s) < unat (currentSelection s1)" unfolding f1 u1 by simp
    show "unat (currentSelection s1) < unat (numPositions s1)" unfolding f1 u1 by (rule i)
    have e: "(of_nat (unat (currentSelection s) + 1) :: 16 word) = currentSelection s + 1" by simp
    show "list_all (\<lambda>r. sint (calculateEdge s1 (of_nat (unat (currentSelection s) + 1)) Lower)
                            \<le> sint r) rs"
      unfolding f1 e by (rule rs)
  qed
  show ?thesis using A B unfolding q_def by blast
qed

theorem hysteresis_witness:
  "regular two_positions \<and> recalculateWidths two_positions = Some two_positions
   \<and> unat (currentSelection two_positions) + 1 < unat (numPositions two_positions)
   \<and> getPosition two_positions 60 = Some (currentSelection two_positions + 1, two_positions_upper)
   \<and> getPosition two_positions_upper (calculateEdge two_positions (currentSelection two_positions) Upper)
       = Some (currentSelection two_positions + 1, two_positions_upper)
   \<and> list_all (\<lambda>r. sint (calculateEdge two_positions (currentSelection two_positions + 1) Lower)
                     \<le> sint r) [50, 45, 100 :: int16]
   \<and> (\<exists>sels s2. getPositions two_positions_upper [50, 45, 100] = Some (sels, s2)
          \<and> list_all (\<lambda>c. unat (currentSelection two_positions) < unat c) sels)"
proof -
  have i: "unat (currentSelection two_positions) + 1 < unat (numPositions two_positions)"
    by (simp add: two_positions_def)
  have mv: "getPosition two_positions 60
              = Some (currentSelection two_positions + 1, two_positions_upper)"
    by (simp add: two_positions_upper_def two_positions_def getPosition_def calculateSelection_def
        clampPos_def scanUp.simps calculateEdge_def)
  have rs: "list_all (\<lambda>r. sint (calculateEdge two_positions (currentSelection two_positions + 1) Lower)
                     \<le> sint r) [50, 45, 100 :: int16]"
    by (simp add: two_positions_def calculateEdge_def)
  from hysteresis [OF two_positions_regular i mv] rs show ?thesis
    using two_positions_regular i mv by blast
qed

text \<open>
  C2 as stated fails where the range is narrower than the number of positions: on the
  range 0..1 with two positions and deadzone 1/8 the unsigned budget
  \<open>totalRange - numPositions\<close> wraps around, both edges of segment 0 are 0 and both edges
  of segment 1 are 1. The reading 1 moves the selection from 0 to 1, and the reading 0,
  which is the upper edge of segment 0, moves it back.
\<close>

theorem hysteresis_counterexample:
  "\<exists>s a s1 b s2. AnalogSelectorFilter_ctor zeroed 0 1 2 (Finite (1 / 8)) = Some s
      \<and> recalculateWidths s = Some s \<and> currentSelection s = 0
      \<and> getPosition s 1 = Some (a, s1) \<and> a = 1
      \<and> calculateEdge s 0 Upper = 0 \<and> calculateEdge s 1 Lower = 1
      \<and> getPosition s1 (calculateEdge s 0 Upper) = Some (b, s2) \<and> b = 0"
  by (simp add: eval_defs product_65535_eighth zeroed_def)

text \<open>
  C3. In the filter of C1 (range 0..100, two positions, deadzone 0.1: widths 45 and 9)
  the upper edge of the last segment, index 1, is 100 in the code: the index is compared
  with \<open>numPositions\<close>, which no index equals, so the deadzone width is counted twice
  (0 + 45 * 2 + 9 * 2 = 108, clamped to 100). The formula of the specification counts it
  once for the last index and gives 99.
\<close>

theorem last_upper_edge_differs:
  "\<exists>s. AnalogSelectorFilter_ctor u 0 100 2 (Finite tenth) = Some s
       \<and> sint (calculateEdge s 1 Upper) = 100
       \<and> spec_edge s 1 Upper = 99"
  by (simp add: eval_defs product_98_tenth tenth_range spec_edge_def)

text \<open>
  C4. For a regular configuration (range in order and no wider than 32767, between one
  position and as many as the range is wide, deadzone fraction between 0 and 1) the
  recalculation is defined and stores: as deadzone width the truncated binary32 product
  of the gap's share \<open>(totalRange - numPositions) / gapCount\<close> (0 without a gap) and the
  fraction, which is the floor of the exact product or, when the rounding of the
  product reaches the next integer, one more; as segment width the truncating quotient
  \<open>(totalRange - deadzoneWidth * gapCount) / numPositions\<close>. Nothing else changes but the
  flag, which is cleared.
\<close>

theorem widths_of_regular_configuration:
  assumes "regular s"
  shows "\<exists>w q. recalculateWidths s = Some w \<and> deadzoneSize s = Finite q
           \<and> w = s\<lparr>deadzoneWidth := deadzoneWidth w, selectorWidth := selectorWidth w,
                    configChanged := False\<rparr>
           \<and> float_to_uint
                (float_mul
                   (Finite (of_int (spec_maxDeadzoneWidth (totalRange s) (uint (numPositions s)))))
                   (Finite q)) = Some (deadzoneWidth w)
           \<and> spec_deadzoneWidth (totalRange s) (uint (numPositions s)) q \<le> uint (deadzoneWidth w)
           \<and> uint (deadzoneWidth w)
               \<le> \<lceil>of_int (spec_maxDeadzoneWidth (totalRange s) (uint (numPositions s))) * q\<rceil>
           \<and> uint (selectorWidth w)
               = spec_segmentWidth (totalRange s) (uint (numPositions s)) (uint (deadzoneWidth w))"
proof -
  define T n where "T = nat (sint (rangeMax s) - sint (rangeMin s))" and "n = unat (numPositions s)"
  define M where "M = (if n = 1 then 0 else (T - n) div (n - 1))"
  have reg: "sint (rangeMin s) \<le> sint (rangeMax s)" "totalRange s \<le> 32767"
    "1 \<le> unat (numPositions s)" "int (unat (numPositions s)) \<le> totalRange s"
    "in_unit_interval (deadzoneSize s)"
    using assms unfolding regular_def by blast+
  have r: "sint (rangeMin s) \<le> sint (rangeMax s)" by (rule reg(1))
  have wd: "sint (rangeMax s) - sint (rangeMin s) \<le> 32767" using reg(2) unfolding totalRange_def .
  have n1: "1 \<le> n" unfolding n_def by (rule reg(3))
  have nT: "n \<le> T" using reg(4) unfolding totalRange_def T_def n_def by linarith
  have dz: "in_unit_interval (deadzoneSize s)" by (rule reg(5))
  from dz obtain q where q: "deadzoneSize s = Finite q" "0 \<le> q" "q \<le> 1"
    by (cases "deadzoneSize s") (simp_all add: in_unit_interval_def)
  from recalculateWidths_regular [OF r wd n1 [unfolded n_def] nT [unfolded n_def T_def] q]
  obtain dw sw where
    e: "recalculateWidths s
          = Some (s\<lparr>deadzoneWidth := dw, selectorWidth := sw, configChanged := False\<rparr>)"
    and f: "float_to_uint (float_mul (Finite (of_nat M)) (Finite q)) = Some dw"
    and dM: "unat dw \<le> M"
    and u: "unat sw = (T - unat dw * (n - 1)) div n"
    unfolding M_def T_def n_def by blast
  define w where "w = s\<lparr>deadzoneWidth := dw, selectorWidth := sw, configChanged := False\<rparr>"
  have wf: "deadzoneWidth w = dw" "selectorWidth w = sw" by (simp_all add: w_def)
  have Ti: "totalRange s = int T" using r by (simp add: totalRange_def T_def)
  have ni: "uint (numPositions s) = int n" by (simp add: n_def)
  have MT: "M \<le> T"
  proof (cases "n = 1")
    case True then show ?thesis by (simp add: M_def)
  next
    case False
    have "(T - n) div (n - 1) \<le> T - n" by (rule div_le_dividend)
    then have "(T - n) div (n - 1) \<le> T" by linarith
    then show ?thesis using False by (simp add: M_def)
  qed
  have T16: "T < 65536" unfolding T_def using wd by linarith
  have M16: "M < 65536" using MT T16 by linarith
  have Mi: "spec_maxDeadzoneWidth (int T) (int n) = int M"
  proof (cases "n = 1")
    case True then show ?thesis by (simp add: spec_maxDeadzoneWidth_def M_def)
  next
    case False
    then have n2: "2 \<le> n" using n1 by linarith
    have "tdiv (int T - int n) (int n - 1) = (int T - int n) div (int n - 1)"
      using nT n2 by (intro tdiv_nonneg) linarith+
    also have "\<dots> = int ((T - n) div (n - 1))"
      using nT n2 by (simp add: zdiv_int of_nat_diff)
    finally show ?thesis using False n2 by (simp add: spec_maxDeadzoneWidth_def M_def Let_def)
  qed
  have uM: "unat (of_nat M :: 16 word) = M" using M16 by (rule unat_of_nat16)
  from deadzone_product_floor [OF q(2,3), of "of_nat M"] obtain dw' where
    d': "float_to_uint (float_mul (float_of_uint (of_nat M)) (Finite q)) = Some dw'"
      "\<lfloor>of_nat M * q\<rfloor> \<le> int (unat dw')" "int (unat dw') \<le> \<lceil>of_nat M * q\<rceil>"
    unfolding uM by blast
  have "float_of_uint (of_nat M) = Finite (of_nat M)" by (simp only: float_of_uint_def uM)
  then have same: "dw' = dw" using d'(1) f by simp
  have lo: "spec_deadzoneWidth (int T) (int n) q \<le> int (unat dw)"
    using d'(2) unfolding same spec_deadzoneWidth_alt Mi by simp
  have hi: "int (unat dw) \<le> \<lceil>of_int (spec_maxDeadzoneWidth (int T) (int n)) * q\<rceil>"
    using d'(3) unfolding same Mi by simp
  have b1: "unat dw * (n - 1) \<le> T - n"
  proof -
    have "unat dw * (n - 1) \<le> M * (n - 1)" using dM by (rule mult_le_mono1)
    also have "\<dots> \<le> T - n" unfolding M_def by simp
    finally show ?thesis .
  qed
  have seg: "int (unat sw) = spec_segmentWidth (int T) (int n) (int (unat dw))"
  proof -
    have le: "unat dw * (n - 1) \<le> T" using b1 by linarith
    have "int T - int (unat dw) * (int n - 1) = int (T - unat dw * (n - 1))"
      using le n1 by (simp add: of_nat_diff)
    then have "tdiv (int T - int (unat dw) * (int n - 1)) (int n)
                 = int (T - unat dw * (n - 1)) div int n"
      using n1 by (simp add: tdiv_nonneg)
    also have "\<dots> = int ((T - unat dw * (n - 1)) div n)" by (simp add: zdiv_int)
    finally show ?thesis unfolding u spec_segmentWidth_def by simp
  qed
  have fq: "float_to_uint (float_mul (Finite (of_int (spec_maxDeadzoneWidth (int T) (int n))))
              (Finite q)) = Some dw"
    using f unfolding Mi by simp
  have "recalculateWidths s = Some w" using e by (simp add: w_def)
  moreover have "w = s\<lparr>deadzoneWidth := deadzoneWidth w, selectorWidth := selectorWidth w,
                    configChanged := False\<rparr>" by (simp add: w_def)
  ultimately show ?thesis
    using q(1) fq lo hi seg unfolding Ti ni wf [symmetric]
    by (intro exI [of _ w] exI [of _ q]) (simp add: wf)
qed

theorem widths_of_regular_configuration_witness:
  "regular (zeroed\<lparr>rangeMax := 100, numPositions := 2, deadzoneSize := Finite tenth\<rparr>)
   \<and> (\<exists>w. recalculateWidths (zeroed\<lparr>rangeMax := 100, numPositions := 2,
                                       deadzoneSize := Finite tenth\<rparr>) = Some w
          \<and> float_to_uint (float_mul (Finite 98) (Finite tenth)) = Some (deadzoneWidth w)
          \<and> uint (selectorWidth w) = spec_segmentWidth 100 2 (uint (deadzoneWidth w)))"
proof -
  define c where "c = zeroed\<lparr>rangeMax := 100, numPositions := 2, deadzoneSize := Finite tenth\<rparr>"
  have r: "regular c"
    using tenth_range
    by (simp add: c_def zeroed_def regular_def totalRange_def in_unit_interval_def not_less)
  have t: "totalRange c = 100" "uint (numPositions c) = 2"
    by (simp_all add: c_def zeroed_def totalRange_def)
  have m: "spec_maxDeadzoneWidth 100 2 = 98"
    by (simp add: spec_maxDeadzoneWidth_def tdiv_def)
  from widths_of_regular_configuration [OF r] obtain w q where
    w: "recalculateWidths c = Some w"
      "float_to_uint (float_mul (Finite (of_int (spec_maxDeadzoneWidth (totalRange c) (uint (numPositions c)))))
                   (Finite q)) = Some (deadzoneWidth w)"
      "deadzoneSize c = Finite q"
      "uint (selectorWidth w)
               = spec_segmentWidth (totalRange c) (uint (numPositions c)) (uint (deadzoneWidth w))"
    by blast
  have q: "q = tenth" using w(3) by (simp add: c_def)
  have "float_to_uint (float_mul (Finite 98) (Finite tenth)) = Some (deadzoneWidth w)"
    using w(2) unfolding t m q by simp
  moreover have "uint (selectorWidth w) = spec_segmentWidth 100 2 (uint (deadzoneWidth w))"
    using w(4) unfolding t .
  ultimately show ?thesis using r w(1) unfolding c_def by blast
qed

text \<open>
  C4 as stated fails where the range is narrower than the number of positions: on the
  range 0..1 with two positions and deadzone 1/2 the unsigned difference 1 - 2 is 65535,
  the deadzone width becomes 32767 and the segment width 16385, where the formulas of
  the specification give -1 and 1.
\<close>

theorem widths_wrap_counterexample:
  "\<exists>w. recalculateWidths (zeroed\<lparr>rangeMax := 1, numPositions := 2,
                                   deadzoneSize := Finite (1 / 2)\<rparr>) = Some w
       \<and> uint (deadzoneWidth w) = 32767 \<and> uint (selectorWidth w) = 16385
       \<and> spec_deadzoneWidth 1 2 (1 / 2) = - 1
       \<and> spec_segmentWidth 1 2 (- 1) = 1"
  by (simp add: zeroed_def recalculateWidths_def c_abs_def product_65535_half
      spec_deadzoneWidth_def spec_segmentWidth_def tdiv_def floor_minus_half)

text \<open>
  C5. After a non-empty run of setter calls that leaves the members normalised, with at
  most 32767 positions, the next evaluation returns what the full scan of a freshly
  constructed filter of the same configuration returns, provided the upper edge of one
  of the \<open>numPositions\<close> segments is at or above the clamped reading. The widths \<open>w\<close> of
  the configuration exist by lemma \<open>recalculateWidths_defined\<close>.
\<close>

theorem full_scan_after_setters:
  assumes cs: "cs \<noteq> []" and nm: "normalised (callSetters s cs)"
    and b: "unat (numPositions (callSetters s cs)) \<le> 32767"
    and w: "recalculateWidths (callSetters s cs) = Some w"
    and m: "matched w pos"
  shows "\<exists>sel s1 f. getPosition (callSetters s cs) pos = Some (sel, s1)
           \<and> AnalogSelectorFilter_ctor u (rangeMin (callSetters s cs)) (rangeMax (callSetters s cs))
                (numPositions (callSetters s cs)) (deadzoneSize (callSetters s cs)) = Some f
           \<and> fst (calculateSelection f pos False) = sel"
proof -
  define s2 where "s2 = callSetters s cs"
  have c: "configChanged s2" unfolding s2_def using cs by (rule callSetters_dirty)
  have r: "sint (rangeMin s2) \<le> sint (rangeMax s2)" and n0: "numPositions s2 \<noteq> 0"
    and dz: "in_unit_interval (deadzoneSize s2)"
    using nm by (simp_all add: normalised_def s2_def)
  have w2: "recalculateWidths s2 = Some w" using w by (simp add: s2_def)
  note k = recalculateWidths_keeps [OF w2]
  have n2: "unat (numPositions s2) \<le> 32767" using b by (simp add: s2_def)
  have nw: "unat (numPositions w) \<le> 32767" using n2 unfolding k .
  from matched_first [OF m nw] obtain i where
    i: "0 \<le> i" "i < sint (numPositions w)"
      "\<not> sint (calculateEdge w (word_of_int i) Upper) < sint (clampPos w pos)"
      "\<forall>j. 0 \<le> j \<and> j < i
            \<longrightarrow> sint (calculateEdge w (word_of_int j) Upper) < sint (clampPos w pos)"
    by blast
  have sel: "calculateSelection w pos False = (word_of_int i, selected w i)"
    using i by (rule full_scan_matched)
  have g: "getPosition s2 pos = Some (word_of_int i, selected w i)"
    using c w2 sel by (simp add: getPosition_def)
  have nan: "deadzoneSize s2 \<noteq> NaN" using dz by (auto simp: in_unit_interval_def)
  define pre where "pre = setDeadzone (setNumPositions (setRange u (rangeMin s2) (rangeMax s2))
                            (numPositions s2)) (deadzoneSize s2)"
  from ctor_bottom [OF r n2 nan, of u] obtain w' where
    w': "recalculateWidths pre = Some w'"
      "AnalogSelectorFilter_ctor u (rangeMin s2) (rangeMax s2) (numPositions s2) (deadzoneSize s2)
         = Some (selected w' 0)"
    unfolding pre_def by blast
  have pf: "rangeMin pre = rangeMin s2" "rangeMax pre = rangeMax s2"
    "numPositions pre = numPositions s2" "deadzoneSize pre = deadzoneSize s2"
    using r n0 dz by (simp_all add: pre_def setDeadzone_fixed setNumPositions_def setRange_def)
  from recalculateWidths_config [OF w2 pf] w'(1)
  have weq: "w' = pre\<lparr>deadzoneWidth := deadzoneWidth w, selectorWidth := selectorWidth w,
                       configChanged := False\<rparr>" by simp
  define f where "f = selected w' 0"
  have ff: "rangeMin f = rangeMin w" "rangeMax f = rangeMax w" "numPositions f = numPositions w"
    "selectorWidth f = selectorWidth w" "deadzoneWidth f = deadzoneWidth w"
    unfolding k by (simp_all add: f_def weq pf)
  have ce: "calculateEdge f = calculateEdge w" using ff by (rule calculateEdge_cong)
  have cp: "clampPos f pos = clampPos w pos" by (simp add: clampPos_def ff)
  have "calculateSelection f pos False = (word_of_int i, selected f i)"
    using i unfolding ce [symmetric] cp [symmetric] ff(3) [symmetric] by (rule full_scan_matched)
  then show ?thesis using g w'(2) unfolding s2_def [symmetric] f_def [symmetric] by simp
qed

theorem full_scan_after_setters_witness:
  "[SetRange 0 101, SetNumPositions 2] \<noteq> []
   \<and> normalised (callSetters five_positions [SetRange 0 101, SetNumPositions 2])
   \<and> unat (numPositions (callSetters five_positions [SetRange 0 101, SetNumPositions 2]))
        \<le> 32767
   \<and> (\<exists>w. recalculateWidths (callSetters five_positions [SetRange 0 101, SetNumPositions 2])
              = Some w \<and> matched w 60)
   \<and> (\<exists>sel s1 f.
         getPosition (callSetters five_positions [SetRange 0 101, SetNumPositions 2]) 60
           = Some (sel, s1)
         \<and> AnalogSelectorFilter_ctor zeroed
              (rangeMin (callSetters five_positions [SetRange 0 101, SetNumPositions 2]))
              (rangeMax (callSetters five_positions [SetRange 0 101, SetNumPositions 2]))
              (numPositions (callSetters five_positions [SetRange 0 101, SetNumPositions 2]))
              (deadzoneSize (callSetters five_positions [SetRange 0 101, SetNumPositions 2]))
             = Some f
         \<and> fst (calculateSelection f 60 False) = sel)"
proof -
  define cs where "cs = [SetRange 0 101, SetNumPositions 2]"
  define w where "w = five_positions\<lparr>rangeMax := 101, numPositions := 2, selectorWidth := 50\<rparr>"
  have ne: "cs \<noteq> []" by (simp add: cs_def)
  have nm: "normalised (callSetters five_positions cs)"
    by (simp add: cs_def callSetters_def setRange_def setNumPositions_def five_positions_def
        normalised_def in_unit_interval_def)
  have b: "unat (numPositions (callSetters five_positions cs)) \<le> 32767"
    by (simp add: cs_def callSetters_def setRange_def setNumPositions_def five_positions_def)
  have rw: "recalculateWidths (callSetters five_positions cs) = Some w"
    by (simp add: cs_def callSetters_def setRange_def setNumPositions_def five_positions_def
        recalculateWidths_def c_abs_def product_zero w_def)
  have m: "matched w 60"
    by (simp add: matched_def w_def five_positions_def clampPos_def calculateEdge_def
        upt_conv_Cons)
  from full_scan_after_setters [OF ne nm b rw m, of zeroed] show ?thesis
    using ne nm b rw m unfolding cs_def by blast
qed

text \<open>
  C5 as stated fails for a reading above every upper edge: the filter of five positions
  on 0..101 selects index 4 at the reading 100; after \<open>setNumPositions(2)\<close> the segments
  end at 100, the reading 101 matches none and the evaluation returns the old 4, where
  the freshly constructed filter of two positions returns 0.
\<close>

theorem full_scan_stale_counterexample:
  "\<exists>s a s1 sel s2 f. AnalogSelectorFilter_ctor zeroed 0 101 5 (Finite 0) = Some s
      \<and> getPosition s 100 = Some (a, s1)
      \<and> normalised (callSetters s1 [SetNumPositions 2])
      \<and> getPosition (callSetters s1 [SetNumPositions 2]) 101 = Some (sel, s2)
      \<and> sel = 4
      \<and> AnalogSelectorFilter_ctor zeroed (rangeMin (callSetters s1 [SetNumPositions 2]))
           (rangeMax (callSetters s1 [SetNumPositions 2]))
           (numPositions (callSetters s1 [SetNumPositions 2]))
           (deadzoneSize (callSetters s1 [SetNumPositions 2])) = Some f
      \<and> fst (calculateSelection f 101 False) = 0"
  by (simp add: eval_defs product_zero zeroed_def callSetters_def normalised_def
      in_unit_interval_def)

text \<open>
  The bound on the number of positions is needed. With 40000 positions on the range
  7..7 the reading 7 is at the upper edge of segment 0, but \<^verbatim>\<open>(int) numPositions\<close> is
  negative and the scan does not run: the evaluation returns the old selection 4, and
  the freshly constructed filter returns 0.
\<close>

lemma full_scan_needs_position_bound:
  "\<exists>s a s1 w sel s2 f. AnalogSelectorFilter_ctor zeroed 0 100 5 (Finite 0) = Some s
      \<and> getPosition s 100 = Some (a, s1)
      \<and> normalised (callSetters s1 [SetRange 7 7, SetNumPositions 40000])
      \<and> recalculateWidths (callSetters s1 [SetRange 7 7, SetNumPositions 40000]) = Some w
      \<and> matched w 7
      \<and> getPosition (callSetters s1 [SetRange 7 7, SetNumPositions 40000]) 7 = Some (sel, s2)
      \<and> sel = 4
      \<and> AnalogSelectorFilter_ctor zeroed
           (rangeMin (callSetters s1 [SetRange 7 7, SetNumPositions 40000]))
           (rangeMax (callSetters s1 [SetRange 7 7, SetNumPositions 40000]))
           (numPositions (callSetters s1 [SetRange 7 7, SetNumPositions 40000]))
           (deadzoneSize (callSetters s1 [SetRange 7 7, SetNumPositions 40000])) = Some f
      \<and> fst (calculateSelection f 7 False) = 0"
proof -
  have m: "matched (w :: AnalogSelectorFilter) 7"
    if "rangeMin w = 7" "rangeMax w = 7" "numPositions w = 40000" for w
  proof -
    have "(0 :: nat) \<in> set [0..<unat (numPositions w)]" using that by simp
    moreover have "sint (clampPos w 7) \<le> sint (calculateEdge w (of_nat 0) Upper)"
      using that by (simp add: clampPos_def calculateEdge_def Let_def)
    ultimately show ?thesis unfolding matched_def list_ex_iff by blast
  qed
  show ?thesis
    by (simp add: eval_defs product_zero zeroed_def callSetters_def normalised_def
      in_unit_interval_def m)
qed

text \<open>
  C6. In a filter whose widths are those recalculated from a regular configuration, and
  where \<open>rangeMax + deadzoneWidth\<close> still fits a signed 16-bit integer, both edges are
  non-decreasing in the index over all positions, and for every index \<open>i\<close> but the last
  the lower edge of \<open>i\<close> is at most its upper edge, which is at most the lower edge of
  \<open>i + 1\<close> plus the deadzone width.
\<close>

theorem edges_monotone:
  assumes reg: "regular s" and w: "recalculateWidths s = Some w"
    and b: "sint (rangeMax w) + uint (deadzoneWidth w) \<le> 32767"
    and ij: "i \<le> j" "j < unat (numPositions w)"
  shows "sint (calculateEdge w (of_nat i) Lower) \<le> sint (calculateEdge w (of_nat j) Lower)
       \<and> sint (calculateEdge w (of_nat i) Upper) \<le> sint (calculateEdge w (of_nat j) Upper)
       \<and> (i < j \<longrightarrow>
            sint (calculateEdge w (of_nat i) Lower) \<le> sint (calculateEdge w (of_nat i) Upper)
            \<and> sint (calculateEdge w (of_nat i) Upper)
                \<le> sint (calculateEdge w (of_nat (i + 1)) Lower) + uint (deadzoneWidth w))"
proof -
  define sw dw where "sw = unat (selectorWidth w)" and "dw = unat (deadzoneWidth w)"
  have f: "widthsFit w" using reg w by (rule regular_widthsFit)
  have b': "sint (rangeMax w) + int (unat (deadzoneWidth w)) \<le> 32767"
  proof -
    have "uint (deadzoneWidth w) = int (unat (deadzoneWidth w))" by simp
    then show ?thesis using b by (simp only:)
  qed
  have i: "i < unat (numPositions w)" using ij by linarith
  have Li: "sint (calculateEdge w (of_nat i) Lower) = sint (rangeMin w) + int (sw * i + dw * (i - 1))"
    unfolding sw_def dw_def using f i by (rule edge_lower)
  have Lj: "sint (calculateEdge w (of_nat j) Lower) = sint (rangeMin w) + int (sw * j + dw * (j - 1))"
    unfolding sw_def dw_def using f ij(2) by (rule edge_lower)
  have Ui: "sint (calculateEdge w (of_nat i) Upper)
              = min (sint (rangeMax w)) (sint (rangeMin w) + int (sw * (i + 1) + dw * (i + 1)))"
    unfolding sw_def dw_def using f b' i by (rule edge_upper_all)
  have Uj: "sint (calculateEdge w (of_nat j) Upper)
              = min (sint (rangeMax w)) (sint (rangeMin w) + int (sw * (j + 1) + dw * (j + 1)))"
    unfolding sw_def dw_def using f b' ij(2) by (rule edge_upper_all)
  have m1: "sw * i \<le> sw * j" "dw * (i - 1) \<le> dw * (j - 1)"
    "sw * (i + 1) \<le> sw * (j + 1)" "dw * (i + 1) \<le> dw * (j + 1)"
    using ij(1) by (simp_all add: diff_le_mono)
  have lower: "sint (calculateEdge w (of_nat i) Lower) \<le> sint (calculateEdge w (of_nat j) Lower)"
    unfolding Li Lj using m1(1,2) by linarith
  have upper: "sint (calculateEdge w (of_nat i) Upper) \<le> sint (calculateEdge w (of_nat j) Upper)"
    unfolding Ui Uj
  proof (intro min.mono order_refl)
    show "sint (rangeMin w) + int (sw * (i + 1) + dw * (i + 1))
            \<le> sint (rangeMin w) + int (sw * (j + 1) + dw * (j + 1))"
      using m1(3,4) by linarith
  qed
  have inner: "sint (calculateEdge w (of_nat i) Lower) \<le> sint (calculateEdge w (of_nat i) Upper)
            \<and> sint (calculateEdge w (of_nat i) Upper)
                \<le> sint (calculateEdge w (of_nat (i + 1)) Lower) + uint (deadzoneWidth w)"
    if lt: "i < j"
  proof -
    have i1: "i + 1 < unat (numPositions w)" using lt ij(2) by linarith
    have U: "sint (calculateEdge w (of_nat i) Upper)
               = sint (rangeMin w) + int (sw * (i + 1) + dw * (i + 1))"
      unfolding sw_def dw_def using f i1 by (rule edge_upper_inner)
    have L1: "sint (calculateEdge w (of_nat (i + 1)) Lower)
               = sint (rangeMin w) + int (sw * (i + 1) + dw * (i + 1 - 1))"
      unfolding sw_def dw_def using f i1 by (rule edge_lower)
    have a: "sw * i \<le> sw * (i + 1)" "dw * (i - 1) \<le> dw * (i + 1)"
      by (intro mult_le_mono2; linarith)+
    have c: "dw * (i + 1) = dw * (i + 1 - 1) + dw" by simp
    have d: "uint (deadzoneWidth w) = int dw" by (simp add: dw_def)
    have "sint (rangeMin w) + int (sw * i + dw * (i - 1))
            \<le> sint (rangeMin w) + int (sw * (i + 1) + dw * (i + 1))"
      using a by linarith
    moreover have "sint (rangeMin w) + int (sw * (i + 1) + dw * (i + 1))
            \<le> sint (rangeMin w) + int (sw * (i + 1) + dw * (i + 1 - 1)) + int dw"
      using c by linarith
    ultimately show ?thesis unfolding Li U L1 d by blast
  qed
  show ?thesis using lower upper inner by blast
qed

theorem edges_monotone_witness:
  "regular two_positions \<and> recalculateWidths two_positions = Some two_positions
   \<and> sint (rangeMax two_positions) + uint (deadzoneWidth two_positions) \<le> 32767
   \<and> (0 :: nat) \<le> 1 \<and> 1 < unat (numPositions two_positions)
   \<and> sint (calculateEdge two_positions (of_nat 0) Lower)
        \<le> sint (calculateEdge two_positions (of_nat 1) Lower)
   \<and> sint (calculateEdge two_positions (of_nat 0) Upper)
        \<le> sint (calculateEdge two_positions (of_nat 1) Upper)
   \<and> sint (calculateEdge two_positions (of_nat 0) Lower)
        \<le> sint (calculateEdge two_positions (of_nat 0) Upper)
   \<and> sint (calculateEdge two_positions (of_nat 0) Upper)
        \<le> sint (calculateEdge two_positions (of_nat (0 + 1)) Lower)
            + uint (deadzoneWidth two_positions)"
proof -
  have b: "sint (rangeMax two_positions) + uint (deadzoneWidth two_positions) \<le> 32767"
    by (simp add: two_positions_def)
  have ij: "(0 :: nat) \<le> 1" "1 < unat (numPositions two_positions)"
    by (simp_all add: two_positions_def)
  have lt: "(0 :: nat) < 1" by simp
  from edges_monotone [OF two_positions_regular b ij] lt show ?thesis
    using two_positions_regular b ij by blast
qed

text \<open>
  C6 as stated fails where the range is narrower than the number of positions: on the
  range 0..1 with three positions and deadzone 1/2 the widths wrap around, the upper
  edges are 1, 0, 1 and the lower edges 0, 1, 0.
\<close>

theorem edges_monotone_counterexample:
  "\<exists>w. recalculateWidths (zeroed\<lparr>rangeMax := 1, numPositions := 3,
                                   deadzoneSize := Finite (1 / 2)\<rparr>) = Some w
       \<and> uint (selectorWidth w) = 10923 \<and> uint (deadzoneWidth w) = 16383
       \<and> sint (calculateEdge w 0 Upper) = 1 \<and> sint (calculateEdge w 1 Upper) = 0
       \<and> sint (calculateEdge w 1 Lower) = 1 \<and> sint (calculateEdge w 2 Lower) = 0"
  by (simp add: zeroed_def recalculateWidths_def c_abs_def product_32767_half calculateEdge_def)

text \<open>
  C7. \<open>setDeadzone\<close> stores a NaN as it is: both comparisons are false for it. The
  stored value is then not in the interval from 0 to 1.
\<close>

theorem setDeadzone_keeps_NaN:
  "deadzoneSize (setDeadzone s NaN) = NaN
   \<and> \<not> in_unit_interval (deadzoneSize (setDeadzone s NaN))"
  by (simp add: setDeadzone_def in_unit_interval_def)

text \<open>
  C8. After any change of configuration (the setters leave \<open>configChanged\<close> set and the
  members normalised) that gives one position on a range no wider than 32767, or a
  range of one point with at most 32767 positions, every evaluation returns 0.
\<close>

theorem degenerate_always_zero:
  assumes c: "configChanged s" and nm: "normalised s"
    and d: "(unat (numPositions s) = 1 \<and> totalRange s \<le> 32767)
            \<or> (rangeMin s = rangeMax s \<and> unat (numPositions s) \<le> 32767)"
  shows "map_option fst (getPositions s rs) = Some (replicate (length rs) 0)"
proof -
  have r: "sint (rangeMin s) \<le> sint (rangeMax s)" and n0: "numPositions s \<noteq> 0"
    and dz: "in_unit_interval (deadzoneSize s)"
    using nm by (simp_all add: normalised_def)
  from recalculateWidths_defined [OF n0 dz] obtain w where w: "recalculateWidths s = Some w" by blast
  note k = recalculateWidths_keeps [OF w]
  have rw: "sint (rangeMin w) \<le> sint (rangeMax w)" unfolding k by (rule r)
  have n1: "1 \<le> unat (numPositions w)" unfolding k using n0 by (simp add: unat_gt_0 Suc_le_eq)
  have n2: "unat (numPositions w) \<le> 32767" unfolding k using d by auto
  have up: "sint (rangeMax w) \<le> sint (calculateEdge w 0 Upper)"
  proof (cases "sint (rangeMin s) = sint (rangeMax s)")
    case True
    then show ?thesis using calculateEdge_bounds(1) [OF rw, of 0 Upper] unfolding k by simp
  next
    case False
    then have "rangeMin s \<noteq> rangeMax s" by auto
    then have "unat (numPositions s) = 1" "totalRange s \<le> 32767" using d by auto
    moreover have "1 \<le> totalRange s" using False r by (simp add: totalRange_def)
    ultimately show ?thesis using upper_zero_single [OF r _ _ _ dz w] by simp
  qed
  define t where "t = selected w 0"
  have first: "getPosition s pos = Some (0, t)" for pos
  proof -
    have "sint (clampPos w pos) \<le> sint (calculateEdge w 0 Upper)"
      using clampPos_bounds(2) [OF rw, of pos] up by linarith
    with n1 n2 have "calculateSelection w pos False = (0, selected w 0)" by (rule full_scan_first)
    then show ?thesis using c w by (simp add: getPosition_def t_def)
  qed
  have t: "\<not> configChanged t" "sint (rangeMin t) \<le> sint (rangeMax t)"
    "sint (edgeLow t) \<le> sint (rangeMin t)" "sint (rangeMax t) \<le> sint (edgeHigh t)"
    "currentSelection t = 0"
    using k(8) rw up edge_lower_zero [OF rw] by (simp_all add: t_def)
  show ?thesis
  proof (cases rs)
    case Nil then show ?thesis by simp
  next
    case (Cons pos rest)
    then show ?thesis using first [of pos] getPositions_stay [OF t(1-4), of rest] t(5) by simp
  qed
qed

theorem degenerate_always_zero_witness:
  "configChanged (setNumPositions five_positions 1)
   \<and> normalised (setNumPositions five_positions 1)
   \<and> unat (numPositions (setNumPositions five_positions 1)) = 1
   \<and> totalRange (setNumPositions five_positions 1) \<le> 32767
   \<and> map_option fst (getPositions (setNumPositions five_positions 1) [0, 50, 100])
       = Some [0, 0, 0]
   \<and> configChanged (setRange five_positions 7 7)
   \<and> normalised (setRange five_positions 7 7)
   \<and> rangeMin (setRange five_positions 7 7) = rangeMax (setRange five_positions 7 7)
   \<and> unat (numPositions (setRange five_positions 7 7)) \<le> 32767
   \<and> map_option fst (getPositions (setRange five_positions 7 7) [0, 7, 100])
       = Some [0, 0, 0]"
proof -
  define a where "a = setNumPositions five_positions 1"
  define b where "b = setRange five_positions 7 7"
  have a: "configChanged a" "normalised a" "unat (numPositions a) = 1" "totalRange a \<le> 32767"
    by (simp_all add: a_def setNumPositions_def five_positions_def normalised_def totalRange_def
        in_unit_interval_def)
  have b: "configChanged b" "normalised b" "rangeMin b = rangeMax b" "unat (numPositions b) \<le> 32767"
    by (simp_all add: b_def setRange_def five_positions_def normalised_def in_unit_interval_def)
  have "map_option fst (getPositions a [0, 50, 100]) = Some (replicate (length [0 :: int16, 50, 100]) 0)"
    using a by (intro degenerate_always_zero) simp_all
  moreover have "map_option fst (getPositions b [0, 7, 100]) = Some (replicate (length [0 :: int16, 7, 100]) 0)"
    using b by (intro degenerate_always_zero) simp_all
  ultimately show ?thesis using a b unfolding a_def b_def by (simp add: numeral_3_eq_3)
qed

text \<open>
  C8 as stated fails for a range of one point with 40000 positions: \<^verbatim>\<open>(int) numPositions\<close>
  is negative, the scan from the bottom does not run, and the evaluation returns the
  selection 4 that the filter had before the configuration changed.
\<close>

theorem degenerate_stale_counterexample:
  "\<exists>s a s1. AnalogSelectorFilter_ctor zeroed 0 100 5 (Finite 0) = Some s
      \<and> getPosition s 100 = Some (a, s1)
      \<and> configChanged (setNumPositions (setRange s1 7 7) 40000)
      \<and> normalised (setNumPositions (setRange s1 7 7) 40000)
      \<and> rangeMin (setNumPositions (setRange s1 7 7) 40000)
          = rangeMax (setNumPositions (setRange s1 7 7) 40000)
      \<and> map_option fst (getPosition (setNumPositions (setRange s1 7 7) 40000) 7) = Some 4"
  by (simp add: five_positions_constructed five_positions_def getPosition_def
      recalculateWidths_def c_abs_def calculateSelection_def clampPos_def
      scanUp.simps scanDown.simps calculateEdge_def setRange_def setNumPositions_def
      product_zero normalised_def in_unit_interval_def)

text \<open>
  C9. The selection is the index of a position after a construction whose range is
  given in order, with at most 32767 positions and a deadzone that is not a NaN (it is 0
  then). From a state where it is, it still is after \<open>setRange\<close>, after \<open>setDeadzone\<close> and
  after \<open>getPosition\<close>, for every argument, and \<open>getPosition\<close> returns it. After
  \<open>setNumPositions\<close> it is exactly when the selection is below the number stored: the
  setter leaves the selection as it was until the next evaluation.
\<close>

theorem selection_in_range:
  "(sint rMin \<le> sint rMax \<and> unat numPos \<le> 32767 \<and> dz \<noteq> NaN \<longrightarrow>
      (\<exists>f. AnalogSelectorFilter_ctor u rMin rMax numPos dz = Some f
           \<and> currentSelection f = 0 \<and> selectionValid f))
   \<and> (selectionValid s \<longrightarrow>
        selectionValid (setRange s a b) \<and> selectionValid (setDeadzone s d)
        \<and> (selectionValid (setNumPositions s m) \<longleftrightarrow> unat (currentSelection s) < max 1 (unat m))
        \<and> (\<forall>sel s'. getPosition s pos = Some (sel, s') \<longrightarrow>
              sel = currentSelection s' \<and> selectionValid s'))"
proof (intro conjI impI allI)
  assume a: "sint rMin \<le> sint rMax \<and> unat numPos \<le> 32767 \<and> dz \<noteq> NaN"
  then obtain w where
    w: "recalculateWidths (setDeadzone (setNumPositions (setRange u rMin rMax) numPos) dz) = Some w"
      "AnalogSelectorFilter_ctor u rMin rMax numPos dz = Some (selected w 0)"
    using ctor_bottom [of rMin rMax numPos dz u] by blast
  have "numPositions w \<noteq> 0"
    using recalculateWidths_keeps(3,9) [OF w(1)] by simp
  then have "selectionValid (selected w 0)" by (simp add: selectionValid_def unat_gt_0)
  then show "\<exists>f. AnalogSelectorFilter_ctor u rMin rMax numPos dz = Some f
           \<and> currentSelection f = 0 \<and> selectionValid f"
    using w(2) by simp
next
  assume "selectionValid s"
  then show "selectionValid (setRange s a b)" by (simp add: selectionValid_def setRange_def)
next
  assume "selectionValid s"
  then show "selectionValid (setDeadzone s d)" by (simp add: selectionValid_def setDeadzone_def)
next
  show "selectionValid (setNumPositions s m) \<longleftrightarrow> unat (currentSelection s) < max 1 (unat m)"
    by (cases "m = 0") (auto simp: selectionValid_def setNumPositions_def unat_gt_0 max_def Suc_le_eq)
next
  fix sel s' assume "selectionValid s" "getPosition s pos = Some (sel, s')"
  then show "sel = currentSelection s'" "selectionValid s'"
    using getPosition_in_range [of s pos sel s'] by (auto simp: selectionValid_def)
qed

theorem selection_in_range_witness:
  "(\<exists>f. AnalogSelectorFilter_ctor zeroed 0 100 5 (Finite 0) = Some f
        \<and> currentSelection f = 0 \<and> selectionValid f)
   \<and> selectionValid five_positions
   \<and> selectionValid (setRange five_positions 0 50)
   \<and> selectionValid (setDeadzone five_positions (Finite 1))
   \<and> selectionValid (setNumPositions five_positions 3)
   \<and> (\<exists>sel s'. getPosition five_positions 100 = Some (sel, s')
          \<and> sel = currentSelection s' \<and> selectionValid s')"
  using selection_in_range [of 0 100 5 "Finite 0" zeroed five_positions 0 50 "Finite 1" 3 100]
  by (simp add: five_positions_def selectionValid_def eval_defs)

text \<open>
  C9 as stated fails: the filter of five positions selects index 4 at the reading 100;
  \<open>setNumPositions(2)\<close> then leaves the selection 4 with two positions.
\<close>

theorem selection_out_of_range_counterexample:
  "\<exists>s sel s'. AnalogSelectorFilter_ctor zeroed 0 100 5 (Finite 0) = Some s
      \<and> getPosition s 100 = Some (sel, s')
      \<and> selectionValid s' \<and> currentSelection s' = 4
      \<and> numPositions (setNumPositions s' 2) = 2
      \<and> currentSelection (setNumPositions s' 2) = 4
      \<and> \<not> selectionValid (setNumPositions s' 2)"
  by (simp add: eval_defs product_zero selectionValid_def zeroed_def)


end
